theory Spec2Isabelle
  imports Main "HOL-Library.Word"
begin

section \<open>Data model\<close>

text \<open>
  The streaming packet pipeline of \<^verbatim>\<open>modules/datasets/src/utils.cpp\<close>:
  \<^verbatim>\<open>lv::DataPrecacher\<close>, \<^verbatim>\<open>lv::IDataLoader\<close> (the two redirect callbacks) and
  \<^verbatim>\<open>lv::DataWriter\<close>. \<^verbatim>\<open>size_t\<close> is a 64-bit word, so that \<^verbatim>\<open>size_t(-1)\<close>,
  \<^verbatim>\<open>nNextExpectedReqIdx-1\<close> at zero and every sum of sizes wrap as they do in the
  program. The payload of a \<^verbatim>\<open>cv::Mat\<close> is its list of bytes; the byte count
  \<^verbatim>\<open>total()*elemSize()\<close> is the length of that list read as a \<^verbatim>\<open>size_t\<close>.
\<close>

type_synonym size_t = "64 word"
type_synonym uchar = "8 word"
type_synonym bytes = "uchar list"

definition SIZE_MAX :: size_t where
  "SIZE_MAX = - 1"

definition matSize :: "bytes \<Rightarrow> size_t" where
  "matSize p = of_nat (length p)"

section \<open>The data writer\<close>

text \<open>
  \<^verbatim>\<open>std::map<size_t,cv::Mat>\<close> is a list of pairs in ascending key order:
  \<open>map_assign\<close> is \<^verbatim>\<open>m[k] = v\<close>, \<open>map_distance_find\<close> is
  \<^verbatim>\<open>std::distance(m.begin(),m.find(k))\<close>, and \<^verbatim>\<open>m.begin()\<close> is the head.
\<close>

type_synonym packet_map = "(size_t \<times> bytes) list"

fun map_assign :: "size_t \<Rightarrow> bytes \<Rightarrow> packet_map \<Rightarrow> packet_map" where
  "map_assign k v [] = [(k, v)]"
| "map_assign k v ((k', v') # m) =
     (if k < k' then (k, v) # (k', v') # m
      else if k = k' then (k, v) # m
      else (k', v') # map_assign k v m)"

fun map_distance_find :: "size_t \<Rightarrow> packet_map \<Rightarrow> nat" where
  "map_distance_find k [] = 0"
| "map_distance_find k ((k', v') # m) = (if k = k' then 0 else Suc (map_distance_find k m))"

definition map_keys :: "packet_map \<Rightarrow> size_t list" where
  "map_keys m = map fst m"

definition map_bytes :: "packet_map \<Rightarrow> nat" where
  "map_bytes m = sum_list (map (\<lambda>e. length (snd e)) m)"

text \<open>
  The members of \<^verbatim>\<open>DataWriter\<close>. \<open>m_vhWorkers\<close> holds one flag per thread object of
  the vector (is it joinable); \<open>sunk\<close> is the history of the calls of the archiver
  callback, in order, each with the packet and the index passed.
\<close>

record DataWriter =
  m_bIsActive_w :: bool
  m_bAllowPacketDrop :: bool
  m_nQueueMaxSize :: size_t
  m_nQueueSize :: size_t
  m_nQueueCount :: size_t
  m_mQueue :: packet_map
  m_vhWorkers :: "bool list"
  sunk :: "(bytes \<times> size_t) list"

type_synonym archiver = "bytes \<Rightarrow> size_t \<Rightarrow> size_t"

text \<open>The constructor leaves \<^verbatim>\<open>m_nQueueMaxSize\<close> unset: whatever it holds is \<open>junk\<close>.\<close>

definition DataWriter_ctor :: "size_t \<Rightarrow> DataWriter" where
  "DataWriter_ctor junk =
     \<lparr>m_bIsActive_w = False, m_bAllowPacketDrop = False, m_nQueueMaxSize = junk,
      m_nQueueSize = 0, m_nQueueCount = 0, m_mQueue = [], m_vhWorkers = [], sunk = []\<rparr>"

text \<open>
  A call either returns, or it blocks on a condition variable at this state
  (\<open>Waits\<close>): the caller then resumes only after another thread has changed the state.
\<close>

datatype 'a blocking = Returns 'a | Waits

definition queue :: "archiver \<Rightarrow> bytes \<Rightarrow> size_t \<Rightarrow> DataWriter \<Rightarrow> (size_t \<times> DataWriter) blocking" where
  "queue m_lCallback oPacket nIdx s =
     (if \<not> m_bIsActive_w s
      then Returns (m_lCallback oPacket nIdx, s\<lparr>sunk := sunk s @ [(oPacket, nIdx)]\<rparr>)
      else
        let nPacketSize = matSize oPacket in
        if \<not> m_bAllowPacketDrop s \<and> m_nQueueSize s + nPacketSize > m_nQueueMaxSize s
        then Waits
        else if m_nQueueSize s + nPacketSize \<le> m_nQueueMaxSize s
        then
          let q = map_assign nIdx oPacket (m_mQueue s) in
          Returns (of_nat (map_distance_find nIdx q),
                   s\<lparr>m_mQueue := q,
                     m_nQueueSize := m_nQueueSize s + nPacketSize,
                     m_nQueueCount := m_nQueueCount s + 1\<rparr>)
        else Returns (SIZE_MAX, s))"

text \<open>
  One round of the loop of \<^verbatim>\<open>DataWriter::entry\<close>. \<^verbatim>\<open>lvAssert_\<close> ends the program
  with its message when its condition is false.
\<close>

datatype entry_round =
    Exits
  | Sleeps
  | AssertionFailed string
  | Drained DataWriter

definition entry :: "archiver \<Rightarrow> DataWriter \<Rightarrow> entry_round" where
  "entry m_lCallback s =
     (if m_bIsActive_w s \<or> m_nQueueCount s > 0 then
        (if m_nQueueCount s = 0 then Sleeps
         else
           (case m_mQueue s of
              [] \<Rightarrow> AssertionFailed ''data writer notified for missing packet''
            | (nPacketIdx, oPacketData) # rest \<Rightarrow>
                let nPacketSize = matSize oPacketData in
                if \<not> nPacketSize \<le> m_nQueueSize s
                then AssertionFailed ''data writer packet size exceeds queue size''
                else Drained (s\<lparr>m_nQueueSize := m_nQueueSize s - nPacketSize,
                                m_mQueue := rest,
                                m_nQueueCount := m_nQueueCount s - 1,
                                sunk := sunk s @ [(oPacketData, nPacketIdx)]\<rparr>)))
      else Exits)"

text \<open>
  Joining the workers after \<^verbatim>\<open>m_bIsActive = false\<close>: the rounds of \<open>entry\<close> run
  until the loop exits. Each round that drains lowers \<^verbatim>\<open>m_nQueueCount\<close>, which
  bounds the number of rounds.
\<close>

function join_workers :: "archiver \<Rightarrow> DataWriter \<Rightarrow> string + DataWriter" where
  "join_workers m_lCallback s =
     (if m_nQueueCount s = 0 then Inr s
      else
        (case entry m_lCallback s of
           Drained s' \<Rightarrow> join_workers m_lCallback s'
         | AssertionFailed msg \<Rightarrow> Inl msg
         | _ \<Rightarrow> Inr s))"
  by pat_completeness auto
termination
proof (relation "measure (\<lambda>(cb, s). unat (m_nQueueCount s))")
  show "wf (measure (\<lambda>(cb, s). unat (m_nQueueCount s)))"
    by simp
next
  fix m_lCallback :: archiver and s s' :: DataWriter
  assume nz: "m_nQueueCount s \<noteq> 0" and round: "entry m_lCallback s = Drained s'"
  from round have "m_nQueueCount s' = m_nQueueCount s - 1"
    by (auto simp: entry_def Let_def split: if_splits list.splits prod.splits)
  moreover from nz have "unat (m_nQueueCount s - 1) < unat (m_nQueueCount s)"
    by (simp add: unat_minus_one unat_gt_0)
  ultimately show "((m_lCallback, s'), (m_lCallback, s)) \<in> measure (\<lambda>(cb, s). unat (m_nQueueCount s))"
    by simp
qed

declare join_workers.simps [simp del]

text \<open>
  \<^verbatim>\<open>stopAsyncWriting\<close> joins every thread object of the vector, and never removes
  one: joining a thread that was joined before throws \<^verbatim>\<open>std::system_error\<close>.
\<close>

definition stopAsyncWriting :: "archiver \<Rightarrow> DataWriter \<Rightarrow> string + DataWriter" where
  "stopAsyncWriting m_lCallback s =
     (if m_bIsActive_w s then
        (let s1 = s\<lparr>m_bIsActive_w := False\<rparr> in
         if m_vhWorkers s1 = [] then Inr s1
         else if list_all id (m_vhWorkers s1) then
           (case join_workers m_lCallback s1 of
              Inl msg \<Rightarrow> Inl msg
            | Inr s2 \<Rightarrow> Inr (s2\<lparr>m_vhWorkers := map (\<lambda>_. False) (m_vhWorkers s2)\<rparr>))
         else Inl ''std::system_error'')
      else Inr s)"

text \<open>\<^verbatim>\<open>CACHE_MAX_SIZE\<close> comes from the build configuration: it is a parameter.\<close>

definition startAsyncWriting ::
  "archiver \<Rightarrow> size_t \<Rightarrow> size_t \<Rightarrow> bool \<Rightarrow> size_t \<Rightarrow> DataWriter \<Rightarrow> string + (bool \<times> DataWriter)" where
  "startAsyncWriting m_lCallback CACHE_MAX_SIZE nSuggestedQueueSize bDropPacketsIfFull nWorkers s =
     (case (if m_bIsActive_w s then stopAsyncWriting m_lCallback s else Inr s) of
        Inl msg \<Rightarrow> Inl msg
      | Inr s1 \<Rightarrow>
          if nSuggestedQueueSize > 0 then
            Inr (True,
                 s1\<lparr>m_bIsActive_w := True,
                    m_bAllowPacketDrop := bDropPacketsIfFull,
                    m_nQueueMaxSize :=
                      (if nSuggestedQueueSize > CACHE_MAX_SIZE then CACHE_MAX_SIZE else nSuggestedQueueSize),
                    m_nQueueSize := 0,
                    m_nQueueCount := 0,
                    m_mQueue := [],
                    m_vhWorkers := m_vhWorkers s1 @ replicate (unat nWorkers) True\<rparr>)
          else Inr (m_bIsActive_w s1, s1))"

definition map_sorted :: "packet_map \<Rightarrow> bool" where
  "map_sorted m = sorted_wrt (<) (map_keys m)"

section \<open>The data precacher\<close>

text \<open>
  A \<^verbatim>\<open>cv::Mat\<close> header either shares data that the loader callback produced
  (\<open>MatData\<close>), or it was built over \<^verbatim>\<open>vcBuffer.data()+off\<close> with a byte count
  (\<open>MatView off len\<close>): its bytes are then whatever the buffer holds there now.
  An element of \<^verbatim>\<open>qoCache\<close> is such a view; \<open>c_idx\<close> records the index whose packet
  was copied into it (history only: the program never reads it).
\<close>

datatype cvMat = MatData bytes | MatView size_t size_t

datatype cached = Cached (c_idx: size_t) (c_off: size_t) (c_len: size_t)

type_synonym loader = "size_t \<Rightarrow> bytes"

text \<open>
  The members of \<^verbatim>\<open>DataPrecacher\<close>, then the locals of its worker thread
  (\<^verbatim>\<open>DataPrecacher::entry\<close>), then \<open>loaded\<close>: the history of the calls of the loader
  callback, in order, each with the index passed.
\<close>

record DataPrecacher =
  m_bIsActive :: bool
  m_hWorker :: bool
  m_nReqIdx :: size_t
  m_nLastReqIdx :: size_t
  m_oReqPacket :: cvMat
  m_oLastReqPacket :: cvMat
  nBufferSize :: size_t
  vcBuffer :: bytes
  qoCache :: "cached list"
  nNextExpectedReqIdx :: size_t
  nNextPrecacheIdx :: size_t
  nFirstBufferIdx :: size_t
  nNextBufferIdx :: size_t
  loaded :: "size_t list"

definition DataPrecacher_ctor :: DataPrecacher where
  "DataPrecacher_ctor =
     \<lparr>m_bIsActive = False, m_hWorker = False, m_nReqIdx = - 1, m_nLastReqIdx = - 1,
      m_oReqPacket = MatData [], m_oLastReqPacket = MatData [],
      nBufferSize = 0, vcBuffer = [], qoCache = [],
      nNextExpectedReqIdx = 0, nNextPrecacheIdx = 0, nFirstBufferIdx = 0, nNextBufferIdx = 0,
      loaded = []\<rparr>"

text \<open>The bytes a header shows; a view that leaves the buffer shows nothing defined.\<close>

fun matBytes :: "DataPrecacher \<Rightarrow> cvMat \<Rightarrow> bytes option" where
  "matBytes s (MatData bs) = Some bs"
| "matBytes s (MatView off len) =
     (if unat off + unat len \<le> length (vcBuffer s)
      then Some (take (unat len) (drop (unat off) (vcBuffer s)))
      else None)"

text \<open>\<^verbatim>\<open>oNextPacket.copyTo(oNextPacket_cache)\<close>, for a header built at offset \<open>off\<close>.\<close>

definition copyTo :: "bytes \<Rightarrow> nat \<Rightarrow> bytes \<Rightarrow> bytes" where
  "copyTo oNextPacket off buf = take off buf @ oNextPacket @ drop (off + length oNextPacket) buf"

text \<open>
  The prefill loop at the start of \<^verbatim>\<open>entry\<close>. Its condition reads the clock;
  \<open>ticks\<close> is the number of times the clock lets the condition pass.
\<close>

fun prefill :: "loader \<Rightarrow> nat \<Rightarrow> DataPrecacher \<Rightarrow> DataPrecacher" where
  "prefill m_lCallback 0 s = s"
| "prefill m_lCallback (Suc ticks) s =
     (let oNextPacket = m_lCallback (nNextPrecacheIdx s);
          s1 = s\<lparr>loaded := loaded s @ [nNextPrecacheIdx s]\<rparr>;
          nNextPacketSize = matSize oNextPacket
      in if nNextPacketSize > 0 \<and> nNextBufferIdx s + nNextPacketSize < nBufferSize s
         then prefill m_lCallback ticks
                (s1\<lparr>vcBuffer := copyTo oNextPacket (unat (nNextBufferIdx s)) (vcBuffer s),
                    qoCache := qoCache s @ [Cached (nNextPrecacheIdx s) (nNextBufferIdx s) nNextPacketSize],
                    nNextBufferIdx := nNextBufferIdx s + nNextPacketSize,
                    nNextPrecacheIdx := nNextPrecacheIdx s + 1\<rparr>)
         else s1)"

text \<open>
  The loop that pops the cache up to the requested packet. \<^verbatim>\<open>front()\<close> of an empty
  queue has no defined behaviour: \<open>None\<close>.
\<close>

function pop_loop :: "DataPrecacher \<Rightarrow> DataPrecacher option" where
  "pop_loop s =
     (if m_nReqIdx s - nNextExpectedReqIdx s + 1 > 0 then
        (case qoCache s of
           [] \<Rightarrow> None
         | c # rest \<Rightarrow>
             pop_loop (s\<lparr>m_oReqPacket := MatView (c_off c) (c_len c),
                         nFirstBufferIdx := c_off c,
                         qoCache := rest,
                         nNextExpectedReqIdx := nNextExpectedReqIdx s + 1\<rparr>))
      else Some s)"
  by pat_completeness auto
termination
proof (relation "measure (\<lambda>s. unat (m_nReqIdx s - nNextExpectedReqIdx s + 1))")
  show "wf (measure (\<lambda>s. unat (m_nReqIdx s - nNextExpectedReqIdx s + 1)))"
    by simp
next
  fix s :: DataPrecacher and c :: cached and rest :: "cached list"
  assume pos: "0 < m_nReqIdx s - nNextExpectedReqIdx s + 1"
  have "m_nReqIdx s - (nNextExpectedReqIdx s + 1) + 1 = m_nReqIdx s - nNextExpectedReqIdx s"
    by simp
  moreover from pos have "unat (m_nReqIdx s - nNextExpectedReqIdx s + 1)
      = Suc (unat (m_nReqIdx s - nNextExpectedReqIdx s))"
    using unatSuc [of "m_nReqIdx s - nNextExpectedReqIdx s"]
    by (simp add: word_greater_zero_iff add.commute)
  ultimately show "(s\<lparr>m_oReqPacket := MatView (c_off c) (c_len c),
                      nFirstBufferIdx := c_off c,
                      qoCache := rest,
                      nNextExpectedReqIdx := nNextExpectedReqIdx s + 1\<rparr>, s)
      \<in> measure (\<lambda>s. unat (m_nReqIdx s - nNextExpectedReqIdx s + 1))"
    by simp
qed

declare pop_loop.simps [simp del]

text \<open>
  The statements shared by the two branches that answer a request with a direct call
  of the loader (\<^verbatim>\<open>m_oReqPacket = m_lCallback(m_nReqIdx)\<close> and the two assignments
  after it).
\<close>

definition answer_manually :: "loader \<Rightarrow> DataPrecacher \<Rightarrow> DataPrecacher" where
  "answer_manually m_lCallback s =
     s\<lparr>m_oReqPacket := MatData (m_lCallback (m_nReqIdx s)),
       loaded := loaded s @ [m_nReqIdx s],
       nFirstBufferIdx := - 1,
       nNextBufferIdx := - 1,
       nNextExpectedReqIdx := m_nReqIdx s + 1,
       nNextPrecacheIdx := m_nReqIdx s + 1\<rparr>"

text \<open>The body of the worker loop when the wait on the request condition did not time out.\<close>

definition entry_request :: "loader \<Rightarrow> DataPrecacher \<Rightarrow> DataPrecacher option" where
  "entry_request m_lCallback s =
     (if m_nReqIdx s \<noteq> nNextExpectedReqIdx s - 1 then
        (if qoCache s \<noteq> [] then
           (if m_nReqIdx s < nNextPrecacheIdx s \<and> m_nReqIdx s \<ge> nNextExpectedReqIdx s
            then pop_loop s
            else Some (answer_manually m_lCallback (s\<lparr>qoCache := []\<rparr>)))
         else Some (answer_manually m_lCallback s))
      else Some s)"

text \<open>
  The fill loop of the timeout branch. \<^verbatim>\<open>nFillCount\<close> is declared, set to zero and
  compared with 10 in the loop condition; no statement of the loop changes it. The
  loop may not end on every state, so not returning is the value \<open>None\<close>.
\<close>

partial_function (option) fill_loop ::
  "loader \<Rightarrow> size_t \<Rightarrow> size_t \<Rightarrow> DataPrecacher \<Rightarrow> DataPrecacher option" where
  "fill_loop m_lCallback nUsedBufferSize nFillCount s =
     (if nUsedBufferSize < nBufferSize s \<and> nFillCount < 10 then
        (let oNextPacket = m_lCallback (nNextPrecacheIdx s);
             s1 = s\<lparr>loaded := loaded s @ [nNextPrecacheIdx s]\<rparr>;
             nNextPacketSize = matSize oNextPacket
         in if nNextPacketSize = 0 then Some s1
            else if nFirstBufferIdx s \<le> nNextBufferIdx s then
              (if nNextBufferIdx s = - 1 \<or> nNextBufferIdx s + nNextPacketSize \<ge> nBufferSize s then
                 (if (nFirstBufferIdx s \<noteq> - 1 \<and> nNextPacketSize \<ge> nFirstBufferIdx s)
                      \<or> nNextPacketSize \<ge> nBufferSize s
                  then Some s1
                  else fill_loop m_lCallback (nUsedBufferSize + nNextPacketSize) nFillCount
                         (s1\<lparr>vcBuffer := copyTo oNextPacket 0 (vcBuffer s),
                             qoCache := qoCache s @ [Cached (nNextPrecacheIdx s) 0 nNextPacketSize],
                             nNextBufferIdx := nNextPacketSize,
                             nFirstBufferIdx := (if nFirstBufferIdx s = - 1 then 0 else nFirstBufferIdx s),
                             nNextPrecacheIdx := nNextPrecacheIdx s + 1\<rparr>))
               else fill_loop m_lCallback (nUsedBufferSize + nNextPacketSize) nFillCount
                      (s1\<lparr>vcBuffer := copyTo oNextPacket (unat (nNextBufferIdx s)) (vcBuffer s),
                          qoCache := qoCache s @ [Cached (nNextPrecacheIdx s) (nNextBufferIdx s) nNextPacketSize],
                          nNextBufferIdx := nNextBufferIdx s + nNextPacketSize,
                          nNextPrecacheIdx := nNextPrecacheIdx s + 1\<rparr>))
            else if nNextBufferIdx s + nNextPacketSize < nFirstBufferIdx s then
              fill_loop m_lCallback (nUsedBufferSize + nNextPacketSize) nFillCount
                (s1\<lparr>vcBuffer := copyTo oNextPacket (unat (nNextBufferIdx s)) (vcBuffer s),
                    qoCache := qoCache s @ [Cached (nNextPrecacheIdx s) (nNextBufferIdx s) nNextPacketSize],
                    nNextBufferIdx := nNextBufferIdx s + nNextPacketSize,
                    nNextPrecacheIdx := nNextPrecacheIdx s + 1\<rparr>)
            else Some s1)
      else Some s)"

declare fill_loop.simps [code]

text \<open>The body of the worker loop when the wait on the request condition timed out.\<close>

definition usedBufferSize :: "DataPrecacher \<Rightarrow> size_t" where
  "usedBufferSize s =
     (if nFirstBufferIdx s = - 1 then 0
      else if nFirstBufferIdx s < nNextBufferIdx s then nNextBufferIdx s - nFirstBufferIdx s
      else nBufferSize s - nFirstBufferIdx s + nNextBufferIdx s)"

definition entry_timeout :: "loader \<Rightarrow> DataPrecacher \<Rightarrow> DataPrecacher option" where
  "entry_timeout m_lCallback s =
     (let nUsedBufferSize = usedBufferSize s
      in if nUsedBufferSize < nBufferSize s div 4
         then fill_loop m_lCallback nUsedBufferSize 0 s
         else Some s)"

text \<open>
  \<^verbatim>\<open>getPacket\<close>. With the worker running, the caller publishes the index, the worker
  answers it in \<open>entry_request\<close>, and the caller takes \<^verbatim>\<open>m_oReqPacket\<close>: the
  rendezvous is one step here.
\<close>

definition getPacket :: "loader \<Rightarrow> size_t \<Rightarrow> DataPrecacher \<Rightarrow> (cvMat \<times> DataPrecacher) option" where
  "getPacket m_lCallback nIdx s =
     (if nIdx = m_nLastReqIdx s then Some (m_oLastReqPacket s, s)
      else if \<not> m_bIsActive s then
        Some (MatData (m_lCallback nIdx),
              s\<lparr>m_oLastReqPacket := MatData (m_lCallback nIdx),
                m_nLastReqIdx := nIdx,
                loaded := loaded s @ [nIdx]\<rparr>)
      else
        (case entry_request m_lCallback (s\<lparr>m_nReqIdx := nIdx\<rparr>) of
           None \<Rightarrow> None
         | Some s1 \<Rightarrow>
             Some (m_oReqPacket s1, s1\<lparr>m_oLastReqPacket := m_oReqPacket s1, m_nLastReqIdx := nIdx\<rparr>)))"

text \<open>
  \<^verbatim>\<open>stopAsyncPrecaching\<close> joins the worker, whose buffer and queue end with it.
  \<^verbatim>\<open>startAsyncPrecaching\<close> starts the worker, which runs its prefill first.
\<close>

definition stopAsyncPrecaching :: "DataPrecacher \<Rightarrow> DataPrecacher" where
  "stopAsyncPrecaching s =
     (if m_bIsActive s
      then s\<lparr>m_bIsActive := False, m_hWorker := False, vcBuffer := [], qoCache := []\<rparr>
      else s)"

definition startAsyncPrecaching ::
  "loader \<Rightarrow> size_t \<Rightarrow> size_t \<Rightarrow> nat \<Rightarrow> DataPrecacher \<Rightarrow> bool \<times> DataPrecacher" where
  "startAsyncPrecaching m_lCallback CACHE_MAX_SIZE nSuggestedBufferSize ticks s =
     (let s1 = (if m_bIsActive s then stopAsyncPrecaching s else s)
      in if nSuggestedBufferSize > 0 then
           (let n = (if nSuggestedBufferSize > CACHE_MAX_SIZE then CACHE_MAX_SIZE else nSuggestedBufferSize)
            in (True,
                prefill m_lCallback ticks
                  (s1\<lparr>m_bIsActive := True, m_nReqIdx := - 1, m_hWorker := True,
                      nBufferSize := n, vcBuffer := replicate (unat n) 0, qoCache := [],
                      nNextExpectedReqIdx := 0, nNextPrecacheIdx := 0,
                      nFirstBufferIdx := 0, nNextBufferIdx := 0\<rparr>)))
         else (m_bIsActive s1, s1))"

section \<open>Reachable states and the invariant of the cache\<close>

text \<open>
  The states a precacher goes through when it is constructed, started while it is not
  active (any number of times with size zero, which starts nothing), and then asked for
  packets, with the timeouts of the worker's wait falling anywhere in between.
  \<^verbatim>\<open>stopAsyncPrecaching\<close> frees the buffer under the headers handed out; no state after
  it is taken here.
\<close>

inductive reach :: "loader \<Rightarrow> size_t \<Rightarrow> DataPrecacher \<Rightarrow> bool" for cb :: loader and mx :: size_t where
  reach_ctor: "reach cb mx DataPrecacher_ctor"
| reach_start: "reach cb mx s \<Longrightarrow> \<not> m_bIsActive s
     \<Longrightarrow> reach cb mx (snd (startAsyncPrecaching cb mx n ticks s))"
| reach_get: "reach cb mx s \<Longrightarrow> getPacket cb i s = Some (m, s') \<Longrightarrow> reach cb mx s'"
| reach_timeout: "reach cb mx s \<Longrightarrow> m_bIsActive s \<Longrightarrow> entry_timeout cb s = Some s'
     \<Longrightarrow> reach cb mx s'"

text \<open>
  A packet and the buffer are both in memory: their sizes together stay below
  \<open>2 ^ 64\<close>, whatever buffer size up to \<^verbatim>\<open>CACHE_MAX_SIZE\<close> is chosen.
\<close>

definition packets_fit :: "loader \<Rightarrow> size_t \<Rightarrow> bool" where
  "packets_fit cb mx = (\<forall>i. length (cb i) + unat mx < 2 ^ 64)"

text \<open>
  The indices \<open>a, a + 1, ...\<close> (\<open>n\<close> of them), in \<^verbatim>\<open>size_t\<close> arithmetic.
\<close>

definition index_run :: "size_t \<Rightarrow> nat \<Rightarrow> size_t list" where
  "index_run a n = map (\<lambda>k. a + of_nat k) [0..<n]"

text \<open>
  The regions of the buffer that headers refer to, as pairs of an offset and a length:
  the packet last handed to the caller (when it is a view), then the cache in queue
  order. \<open>chain vs lo hi\<close>: the regions of \<open>vs\<close> are non-empty and follow one another
  without overlap from \<open>lo\<close> up to \<open>hi\<close>. \<open>layout\<close>: the regions lie in the part of
  the ring that \<^verbatim>\<open>nFirstBufferIdx\<close> and \<^verbatim>\<open>nNextBufferIdx\<close> delimit.
\<close>

fun chain :: "(nat \<times> nat) list \<Rightarrow> nat \<Rightarrow> nat \<Rightarrow> bool" where
  "chain [] lo hi = (lo \<le> hi)"
| "chain (v # vs) lo hi = (lo \<le> fst v \<and> 0 < snd v \<and> chain vs (fst v + snd v) hi)"

definition sentinel :: nat where
  "sentinel = 2 ^ 64 - 1"

definition layout :: "nat \<Rightarrow> nat \<Rightarrow> nat \<Rightarrow> (nat \<times> nat) list \<Rightarrow> bool" where
  "layout F X C vs =
     (if F = sentinel then X = sentinel \<and> vs = []
      else if F \<le> X then chain vs F X \<and> X \<le> C
      else (\<exists>A B. vs = A @ B \<and> chain A F C \<and> chain B 0 X))"

fun held :: "cvMat \<Rightarrow> (nat \<times> nat) list" where
  "held (MatData bs) = []"
| "held (MatView off len) = [(unat off, unat len)]"

definition region :: "cached \<Rightarrow> nat \<times> nat" where
  "region c = (unat (c_off c), unat (c_len c))"

definition regions :: "DataPrecacher \<Rightarrow> (nat \<times> nat) list" where
  "regions s = held (m_oReqPacket s) @ map region (qoCache s)"

definition worker_inv :: "loader \<Rightarrow> DataPrecacher \<Rightarrow> bool" where
  "worker_inv cb s =
     (length (vcBuffer s) = unat (nBufferSize s)
      \<and> (\<forall>i. length (cb i) + unat (nBufferSize s) < 2 ^ 64)
      \<and> map c_idx (qoCache s) = index_run (nNextExpectedReqIdx s) (length (qoCache s))
      \<and> nNextPrecacheIdx s = nNextExpectedReqIdx s + of_nat (length (qoCache s))
      \<and> (\<forall>c \<in> set (qoCache s). matBytes s (MatView (c_off c) (c_len c)) = Some (cb (c_idx c)))
      \<and> layout (unat (nFirstBufferIdx s)) (unat (nNextBufferIdx s)) (unat (nBufferSize s)) (regions s)
      \<and> (nNextExpectedReqIdx s \<noteq> 0 \<longrightarrow>
            matBytes s (m_oReqPacket s) = Some (cb (nNextExpectedReqIdx s - 1))))"

definition precacher_inv :: "loader \<Rightarrow> DataPrecacher \<Rightarrow> bool" where
  "precacher_inv cb s =
     ((m_nLastReqIdx s \<noteq> - 1 \<longrightarrow> matBytes s (m_oLastReqPacket s) = Some (cb (m_nLastReqIdx s)))
      \<and> (held (m_oLastReqPacket s) = [] \<or> (m_bIsActive s \<and> m_oLastReqPacket s = m_oReqPacket s))
      \<and> (m_bIsActive s \<longrightarrow> worker_inv cb s)
      \<and> (\<not> m_bIsActive s \<longrightarrow>
            held (m_oReqPacket s) = [] \<and> qoCache s = []
            \<and> nNextPrecacheIdx s = nNextExpectedReqIdx s))"

text \<open>What a pass of the worker over the buffer leaves as it was.\<close>

definition fill_frame :: "DataPrecacher \<Rightarrow> DataPrecacher \<Rightarrow> bool" where
  "fill_frame s s' =
     (m_bIsActive s' = m_bIsActive s \<and> m_hWorker s' = m_hWorker s
      \<and> m_nReqIdx s' = m_nReqIdx s \<and> m_nLastReqIdx s' = m_nLastReqIdx s
      \<and> m_oReqPacket s' = m_oReqPacket s \<and> m_oLastReqPacket s' = m_oLastReqPacket s
      \<and> nBufferSize s' = nBufferSize s \<and> nNextExpectedReqIdx s' = nNextExpectedReqIdx s
      \<and> matBytes s' (m_oReqPacket s) = matBytes s (m_oReqPacket s))"

text \<open>The wait of the worker times out \<open>n\<close> times in a row (no worker: nothing happens).\<close>

fun worker_idles :: "loader \<Rightarrow> nat \<Rightarrow> DataPrecacher \<Rightarrow> DataPrecacher option" where
  "worker_idles cb 0 s = Some s"
| "worker_idles cb (Suc n) s =
     (if m_bIsActive s
      then (case entry_timeout cb s of None \<Rightarrow> None | Some s' \<Rightarrow> worker_idles cb n s')
      else Some s)"

section \<open>The loader facade\<close>

text \<open>
  The two callbacks that \<^verbatim>\<open>IDataLoader\<close> hands to its precachers. Here a
  \<^verbatim>\<open>cv::Mat\<close> keeps its shape. The virtual functions of the batch and the OpenCV
  operations are the fields of \<open>batch\<close>; \<open>invoked\<close> is the history of the calls of
  the load functions and of the transforms.
\<close>

datatype PacketPolicy = ImagePacket | NotImagePacket

datatype MappingPolicy = PixelMapping | IdxMapping | BatchMapping | NoMapping

record image =
  im_width :: nat
  im_height :: nat
  im_channels :: nat
  im_data :: bytes

definition emptyMat :: image where
  "emptyMat = \<lparr>im_width = 0, im_height = 0, im_channels = 1, im_data = []\<rparr>"

definition mat_empty :: "image \<Rightarrow> bool" where
  "mat_empty m = (im_data m = [])"

definition mat_size :: "image \<Rightarrow> nat \<times> nat" where
  "mat_size m = (im_width m, im_height m)"

definition area :: "nat \<times> nat \<Rightarrow> nat" where
  "area sz = fst sz * snd sz"

datatype invocation =
    InputPacket_impl size_t
  | GTPacket_impl size_t
  | Transpose
  | CvtColor_BGR2BGRA
  | Resize "nat \<times> nat"

record batch =
  getTotPackets :: size_t
  getInputPacket_impl :: "size_t \<Rightarrow> image"
  getGTPacket_impl :: "size_t \<Rightarrow> image"
  getInputOrigSize :: "size_t \<Rightarrow> nat \<times> nat"
  getGTOrigSize :: "size_t \<Rightarrow> nat \<times> nat"
  getInputSize :: "size_t \<Rightarrow> nat \<times> nat"
  getGTSize :: "size_t \<Rightarrow> nat \<times> nat"
  isInputTransposed :: "size_t \<Rightarrow> bool"
  isGTTransposed :: "size_t \<Rightarrow> bool"
  is4ByteAligned :: bool
  m_eInputType :: PacketPolicy
  m_eGTMappingType :: MappingPolicy
  cv_transpose :: "image \<Rightarrow> image"
  cv_cvtColor_BGR2BGRA :: "image \<Rightarrow> image"
  cv_resize :: "image \<Rightarrow> nat \<times> nat \<Rightarrow> image"

record IDataLoader =
  m_oLatestInputPacket :: image
  m_oLatestGTPacket :: image
  invoked :: "invocation list"

definition getInputPacket_redirect ::
  "batch \<Rightarrow> size_t \<Rightarrow> IDataLoader \<Rightarrow> string + (image \<times> IDataLoader)" where
  "getInputPacket_redirect b nIdx s =
     (if nIdx \<ge> getTotPackets b then Inr (emptyMat, s)
      else
        let s1 = s\<lparr>m_oLatestInputPacket := getInputPacket_impl b nIdx,
                   invoked := invoked s @ [InputPacket_impl nIdx]\<rparr>
        in if \<not> mat_empty (m_oLatestInputPacket s1) then
             (if getInputOrigSize b nIdx \<noteq> mat_size (m_oLatestInputPacket s1)
              then Inl ''expected packet size does not match loaded packet size''
              else if m_eInputType b = ImagePacket then
                (let s2 = (if isInputTransposed b nIdx
                           then s1\<lparr>m_oLatestInputPacket := cv_transpose b (m_oLatestInputPacket s1),
                                   invoked := invoked s1 @ [Transpose]\<rparr>
                           else s1);
                     s3 = (if is4ByteAligned b \<and> im_channels (m_oLatestInputPacket s2) = 3
                           then s2\<lparr>m_oLatestInputPacket := cv_cvtColor_BGR2BGRA b (m_oLatestInputPacket s2),
                                   invoked := invoked s2 @ [CvtColor_BGR2BGRA]\<rparr>
                           else s2);
                     oPacketSize = getInputSize b nIdx;
                     s4 = (if area oPacketSize > 0 \<and> mat_size (m_oLatestInputPacket s3) \<noteq> oPacketSize
                           then s3\<lparr>m_oLatestInputPacket := cv_resize b (m_oLatestInputPacket s3) oPacketSize,
                                   invoked := invoked s3 @ [Resize oPacketSize]\<rparr>
                           else s3)
                 in Inr (m_oLatestInputPacket s4, s4))
              else Inr (m_oLatestInputPacket s1, s1))
           else Inr (m_oLatestInputPacket s1, s1))"

definition getGTPacket_redirect ::
  "batch \<Rightarrow> size_t \<Rightarrow> IDataLoader \<Rightarrow> string + (image \<times> IDataLoader)" where
  "getGTPacket_redirect b nIdx s =
     (if nIdx \<ge> getTotPackets b then Inr (emptyMat, s)
      else
        let s1 = s\<lparr>m_oLatestGTPacket := getGTPacket_impl b nIdx,
                   invoked := invoked s @ [GTPacket_impl nIdx]\<rparr>
        in if \<not> mat_empty (m_oLatestGTPacket s1) then
             (if getGTOrigSize b nIdx \<noteq> mat_size (m_oLatestGTPacket s1)
              then Inl ''expected packet size does not match loaded packet size''
              else if m_eGTMappingType b = PixelMapping \<and> m_eInputType b = ImagePacket then
                (let s2 = (if isGTTransposed b nIdx
                           then s1\<lparr>m_oLatestGTPacket := cv_transpose b (m_oLatestGTPacket s1),
                                   invoked := invoked s1 @ [Transpose]\<rparr>
                           else s1);
                     s3 = (if is4ByteAligned b \<and> im_channels (m_oLatestGTPacket s2) = 3
                           then s2\<lparr>m_oLatestGTPacket := cv_cvtColor_BGR2BGRA b (m_oLatestGTPacket s2),
                                   invoked := invoked s2 @ [CvtColor_BGR2BGRA]\<rparr>
                           else s2);
                     oPacketSize = getGTSize b nIdx;
                     s4 = (if area oPacketSize > 0 \<and> mat_size (m_oLatestGTPacket s3) \<noteq> oPacketSize
                           then s3\<lparr>m_oLatestGTPacket := cv_resize b (m_oLatestGTPacket s3) oPacketSize,
                                   invoked := invoked s3 @ [Resize oPacketSize]\<rparr>
                           else s3)
                 in Inr (m_oLatestGTPacket s4, s4))
              else Inr (m_oLatestGTPacket s1, s1))
           else Inr (m_oLatestGTPacket s1, s1))"

section \<open>States used as examples\<close>

definition writer_two_queued :: DataWriter where
  "writer_two_queued =
     \<lparr>m_bIsActive_w = True, m_bAllowPacketDrop = True, m_nQueueMaxSize = 4,
      m_nQueueSize = 2, m_nQueueCount = 2, m_mQueue = [(1, [10]), (7, [11])],
      m_vhWorkers = [True], sunk = []\<rparr>"

definition one_byte_packets :: loader where
  "one_byte_packets i = [1]"

definition batch_of_ten :: batch where
  "batch_of_ten =
     \<lparr>getTotPackets = 10,
      getInputPacket_impl = (\<lambda>i. \<lparr>im_width = 1, im_height = 1, im_channels = 1, im_data = [7]\<rparr>),
      getGTPacket_impl = (\<lambda>i. \<lparr>im_width = 1, im_height = 1, im_channels = 1, im_data = [9]\<rparr>),
      getInputOrigSize = (\<lambda>i. (1, 1)),
      getGTOrigSize = (\<lambda>i. (1, 1)),
      getInputSize = (\<lambda>i. (1, 1)),
      getGTSize = (\<lambda>i. (1, 1)),
      isInputTransposed = (\<lambda>i. False),
      isGTTransposed = (\<lambda>i. False),
      is4ByteAligned = False,
      m_eInputType = ImagePacket,
      m_eGTMappingType = PixelMapping,
      cv_transpose = (\<lambda>m. m),
      cv_cvtColor_BGR2BGRA = (\<lambda>m. m),
      cv_resize = (\<lambda>m sz. m)\<rparr>"

definition loader_idle :: IDataLoader where
  "loader_idle = \<lparr>m_oLatestInputPacket = emptyMat, m_oLatestGTPacket = emptyMat, invoked = []\<rparr>"

definition stamped :: loader where
  "stamped i = [ucast i, ucast i]"

definition last_index_only :: loader where
  "last_index_only i = (if i = - 1 then [1] else [])"

text \<open>
  A precacher over \<open>stamped\<close> with a buffer of 16 bytes: started, asked for packet 6,
  left idle for one timeout (the fill wraps around the end of the buffer), then asked for
  packet 8.
\<close>

definition cache_started :: DataPrecacher where
  "cache_started = snd (startAsyncPrecaching stamped 6442450944 16 100 DataPrecacher_ctor)"

definition cache_ahead :: DataPrecacher where
  "cache_ahead = snd (the (getPacket stamped 6 cache_started))"

definition cache_idle :: DataPrecacher where
  "cache_idle = the (entry_timeout stamped cache_ahead)"

definition cache_wrapped :: DataPrecacher where
  "cache_wrapped = snd (the (getPacket stamped 8 cache_idle))"

text \<open>
  A precacher over \<open>last_index_only\<close> with a buffer of 8 bytes: started, asked for the
  packet before the last index, then left idle for one timeout.
\<close>

definition cache_at_end :: DataPrecacher where
  "cache_at_end =
     the (entry_timeout last_index_only
       (snd (the (getPacket last_index_only (- 2)
          (snd (startAsyncPrecaching last_index_only 6442450944 8 100 DataPrecacher_ctor))))))"

definition ten_packets :: loader where
  "ten_packets i = (if i < 10 then [ucast i, ucast i] else [])"

text \<open>
  A precacher over \<open>ten_packets\<close> with a buffer of 64 bytes: started (the prefill ends
  at the empty packet of index 10), then asked for packet 9.
\<close>

definition cache_of_ten :: DataPrecacher where
  "cache_of_ten = snd (startAsyncPrecaching ten_packets 6442450944 64 100 DataPrecacher_ctor)"

definition cache_drained :: DataPrecacher where
  "cache_drained = snd (the (getPacket ten_packets 9 cache_of_ten))"

section \<open>Properties of the writer\<close>

lemma map_assign_keys: "set (map_keys (map_assign k v m)) = insert k (set (map_keys m))"
  by (induction m) (force simp: map_keys_def)+

lemma map_assign_sorted: "map_sorted m \<Longrightarrow> map_sorted (map_assign k v m)"
proof (induction m)
  case Nil
  then show ?case by (simp add: map_sorted_def map_keys_def)
next
  case (Cons e m)
  obtain k' v' where e: "e = (k', v')" by (cases e)
  from Cons.prems have tl: "map_sorted m" and hd: "\<forall>x\<in>set (map_keys m). k' < x"
    by (auto simp: map_sorted_def map_keys_def e)
  have "set (map_keys (map_assign k v m)) = insert k (set (map_keys m))"
    by (rule map_assign_keys)
  with Cons.IH [OF tl] hd Cons.prems show ?case
    unfolding map_sorted_def e
    by (auto simp: map_keys_def)
qed

lemma map_assign_lookup: "map_of (map_assign k v m) k = Some v"
  by (induction m) auto

lemma map_distance_find_assign:
  "map_sorted m \<Longrightarrow>
   map_distance_find k (map_assign k v m) = length (filter (\<lambda>k'. k' < k) (map_keys m))"
proof (induction m)
  case Nil
  then show ?case by (simp add: map_keys_def)
next
  case (Cons e m)
  obtain k' v' where e: "e = (k', v')" by (cases e)
  from Cons.prems have tl: "map_sorted m" and hd: "\<forall>x\<in>set (map_keys m). k' < x"
    by (auto simp: map_sorted_def map_keys_def e)
  show ?case
  proof (cases "k \<le> k'")
    case True
    with hd have "filter (\<lambda>x. x < k) (map_keys m) = []"
      by (auto simp: filter_empty_conv)
    with True show ?thesis
      by (auto simp: e map_keys_def)
  next
    case False
    with Cons.IH [OF tl] show ?thesis
      by (auto simp: e map_keys_def)
  qed
qed

text \<open>
  Claim C4. \<open>queue\<close> on a writer that is not active calls the archiver callback once,
  with the packet and the index, and returns its result. On an active writer, when
  \<^verbatim>\<open>m_nQueueSize+nPacketSize<=m_nQueueMaxSize\<close> (in \<^verbatim>\<open>size_t\<close> arithmetic, as the
  program computes it), it stores the packet under the index, adds its size to the byte
  count, calls no callback, and returns the position of the index in the map: when the
  map is in key order, the number of keys below it. On an active writer that may drop
  packets, a packet that does not fit is answered with \<^verbatim>\<open>SIZE_MAX\<close> and changes
  nothing; such a writer never blocks the caller.
\<close>

theorem queue_push_contract:
  "(\<not> m_bIsActive_w s \<longrightarrow>
      queue cb p i s = Returns (cb p i, s\<lparr>sunk := sunk s @ [(p, i)]\<rparr>))
   \<and> (m_bIsActive_w s \<and> m_nQueueSize s + matSize p \<le> m_nQueueMaxSize s \<longrightarrow>
        (\<exists>s'. queue cb p i s = Returns (of_nat (map_distance_find i (m_mQueue s')), s')
           \<and> map_of (m_mQueue s') i = Some p
           \<and> set (map_keys (m_mQueue s')) = insert i (set (map_keys (m_mQueue s)))
           \<and> m_nQueueSize s' = m_nQueueSize s + matSize p
           \<and> sunk s' = sunk s
           \<and> (map_sorted (m_mQueue s) \<longrightarrow>
                map_sorted (m_mQueue s')
                \<and> map_distance_find i (m_mQueue s')
                    = length (filter (\<lambda>k. k < i) (map_keys (m_mQueue s))))))
   \<and> (m_bIsActive_w s \<and> m_bAllowPacketDrop s
        \<and> \<not> m_nQueueSize s + matSize p \<le> m_nQueueMaxSize s \<longrightarrow>
        queue cb p i s = Returns (SIZE_MAX, s))
   \<and> (m_bAllowPacketDrop s \<longrightarrow> queue cb p i s \<noteq> Waits)"
  by (auto simp: queue_def Let_def map_assign_lookup map_assign_keys map_assign_sorted
      map_distance_find_assign)

theorem queue_push_contract_witness:
  "queue (\<lambda>p i. i + 1) [1, 2] 3 (DataWriter_ctor 0)
     = Returns (4, (DataWriter_ctor 0)\<lparr>sunk := [([1, 2], 3)]\<rparr>)
   \<and> queue (\<lambda>p i. i + 1) [1, 2] 3 writer_two_queued
     = Returns (1, writer_two_queued\<lparr>m_mQueue := [(1, [10]), (3, [1, 2]), (7, [11])],
                                     m_nQueueSize := 4, m_nQueueCount := 3\<rparr>)
   \<and> queue (\<lambda>p i. i + 1) [1, 2, 3] 3 writer_two_queued = Returns (SIZE_MAX, writer_two_queued)"
  using queue_push_contract [of "DataWriter_ctor 0" "\<lambda>p i. i + 1" "[1, 2]" 3]
    queue_push_contract [of writer_two_queued "\<lambda>p i. i + 1" "[1, 2]" 3]
    queue_push_contract [of writer_two_queued "\<lambda>p i. i + 1" "[1, 2, 3]" 3]
  by (simp add: DataWriter_ctor_def writer_two_queued_def queue_def matSize_def Let_def)

lemma join_workers_drains:
  "m_mQueue s = m \<Longrightarrow> m_nQueueCount s = of_nat (length m) \<Longrightarrow> length m < 2 ^ 64
   \<Longrightarrow> m_nQueueSize s = of_nat (map_bytes m) \<Longrightarrow> map_bytes m < 2 ^ 64
   \<Longrightarrow> \<exists>s'. join_workers cb s = Inr s'
        \<and> sunk s' = sunk s @ map (\<lambda>e. (snd e, fst e)) m
        \<and> m_mQueue s' = [] \<and> m_nQueueCount s' = 0 \<and> m_nQueueSize s' = 0"
proof (induction m arbitrary: s)
  case Nil
  then show ?case by (simp add: join_workers.simps [of cb s] map_bytes_def)
next
  case (Cons e m)
  obtain k p where e: "e = (k, p)" by (cases e)
  have "unat (of_nat (length (e # m)) :: size_t) = length (e # m)"
    using Cons.prems(3) by (simp only: unat_of_nat) simp
  with Cons.prems(2) have cnt: "m_nQueueCount s \<noteq> 0"
    by auto
  have mb: "map_bytes (e # m) = length p + map_bytes m"
    by (simp add: map_bytes_def e)
  with Cons.prems(5) have lp: "length p < 2 ^ 64" "map_bytes m < 2 ^ 64" by simp_all
  have "unat (of_nat (length p + map_bytes m) :: size_t) = length p + map_bytes m"
    using Cons.prems(5) unfolding mb by (simp only: unat_of_nat) simp
  moreover have "unat (of_nat (length p) :: size_t) = length p"
    using lp(1) by (simp only: unat_of_nat) simp
  ultimately have le: "matSize p \<le> m_nQueueSize s"
    unfolding Cons.prems(4) mb matSize_def word_le_nat_alt by simp
  define s1 where "s1 = s\<lparr>m_nQueueSize := m_nQueueSize s - matSize p, m_mQueue := m,
      m_nQueueCount := m_nQueueCount s - 1, sunk := sunk s @ [(p, k)]\<rparr>"
  from cnt le Cons.prems(1) have round: "entry cb s = Drained s1"
    by (simp add: entry_def e Let_def s1_def word_greater_zero_iff)
  with cnt have step: "join_workers cb s = join_workers cb s1"
    by (simp add: join_workers.simps [of cb s])
  have 1: "m_mQueue s1 = m" by (simp add: s1_def)
  have 2: "m_nQueueCount s1 = of_nat (length m)"
    using Cons.prems(2) by (simp add: s1_def)
  have 3: "length m < 2 ^ 64" using Cons.prems(3) by simp
  have 4: "m_nQueueSize s1 = of_nat (map_bytes m)"
    using Cons.prems(4) unfolding mb by (simp add: s1_def matSize_def)
  from Cons.IH [OF 1 2 3 4 lp(2)] step show ?case
    by (auto simp: s1_def e)
qed

text \<open>
  Claim C5. A round of the worker that finds a packet queued (its two assertions hold)
  takes the first entry of the map, which has the smallest index of all entries, removes
  it, lowers the byte count by its size, and calls the archiver callback once, with that
  packet and that index: the index passed to the callback is the smallest one queued at
  the moment it is taken. When the counters agree with the map and one worker runs its
  rounds with no \<open>queue\<close> in between (as it does when the writer is stopped), every
  queued packet is passed to the callback, in strictly ascending order of index.
\<close>

theorem entry_drains_smallest_key:
  assumes "map_sorted (m_mQueue s)" and "m_mQueue s = (k, p) # rest"
    and "m_nQueueCount s \<noteq> 0" and "matSize p \<le> m_nQueueSize s"
  shows "entry cb s = Drained (s\<lparr>m_nQueueSize := m_nQueueSize s - matSize p,
                                 m_mQueue := rest,
                                 m_nQueueCount := m_nQueueCount s - 1,
                                 sunk := sunk s @ [(p, k)]\<rparr>)
    \<and> (\<forall>k' \<in> set (map_keys (m_mQueue s)). k \<le> k')
    \<and> (\<forall>k' \<in> set (map_keys rest). k < k')
    \<and> map_sorted rest
    \<and> (m_nQueueCount s = of_nat (length (m_mQueue s)) \<and> length (m_mQueue s) < 2 ^ 64
        \<and> m_nQueueSize s = of_nat (map_bytes (m_mQueue s)) \<and> map_bytes (m_mQueue s) < 2 ^ 64
        \<longrightarrow> (\<exists>s'. join_workers cb s = Inr s'
               \<and> sunk s' = sunk s @ map (\<lambda>e. (snd e, fst e)) (m_mQueue s)
               \<and> sorted_wrt (<) (map snd (drop (length (sunk s)) (sunk s')))
               \<and> m_mQueue s' = []))"
proof (intro conjI impI)
  show "entry cb s = Drained (s\<lparr>m_nQueueSize := m_nQueueSize s - matSize p,
                                 m_mQueue := rest,
                                 m_nQueueCount := m_nQueueCount s - 1,
                                 sunk := sunk s @ [(p, k)]\<rparr>)"
    using assms by (simp add: entry_def Let_def word_greater_zero_iff)
  show "\<forall>k' \<in> set (map_keys (m_mQueue s)). k \<le> k'"
    using assms(1,2) by (auto simp: map_sorted_def map_keys_def)
  show "\<forall>k' \<in> set (map_keys rest). k < k'"
    using assms(1,2) by (auto simp: map_sorted_def map_keys_def)
  show "map_sorted rest"
    using assms(1,2) by (simp add: map_sorted_def map_keys_def)
next
  assume c: "m_nQueueCount s = of_nat (length (m_mQueue s)) \<and> length (m_mQueue s) < 2 ^ 64
        \<and> m_nQueueSize s = of_nat (map_bytes (m_mQueue s)) \<and> map_bytes (m_mQueue s) < 2 ^ 64"
  then obtain s' where s': "join_workers cb s = Inr s'"
    "sunk s' = sunk s @ map (\<lambda>e. (snd e, fst e)) (m_mQueue s)" "m_mQueue s' = []"
    using join_workers_drains [of s "m_mQueue s" cb] by auto
  have "map snd (drop (length (sunk s)) (sunk s')) = map_keys (m_mQueue s)"
    by (simp add: s'(2) map_keys_def comp_def)
  with assms(1) have "sorted_wrt (<) (map snd (drop (length (sunk s)) (sunk s')))"
    by (simp add: map_sorted_def)
  with s' show "\<exists>s'. join_workers cb s = Inr s'
               \<and> sunk s' = sunk s @ map (\<lambda>e. (snd e, fst e)) (m_mQueue s)
               \<and> sorted_wrt (<) (map snd (drop (length (sunk s)) (sunk s')))
               \<and> m_mQueue s' = []"
    by blast
qed

theorem entry_drains_smallest_key_witness:
  "map_sorted (m_mQueue writer_two_queued)
   \<and> entry (\<lambda>p i. i + 1) writer_two_queued
       = Drained (writer_two_queued\<lparr>m_nQueueSize := 1, m_mQueue := [(7, [11])],
                                    m_nQueueCount := 1, sunk := [([10], 1)]\<rparr>)
   \<and> (\<exists>s'. join_workers (\<lambda>p i. i + 1) writer_two_queued = Inr s'
          \<and> sunk s' = [([10], 1), ([11], 7)] \<and> m_mQueue s' = [])"
proof -
  have a: "map_sorted (m_mQueue writer_two_queued)"
    by (simp add: writer_two_queued_def map_sorted_def map_keys_def)
  have b: "m_mQueue writer_two_queued = (1, [10]) # [(7, [11])]"
    by (simp add: writer_two_queued_def)
  have c: "m_nQueueCount writer_two_queued \<noteq> 0"
    by (simp add: writer_two_queued_def)
  have d: "matSize [10] \<le> m_nQueueSize writer_two_queued"
    by (simp add: writer_two_queued_def matSize_def)
  have e: "m_nQueueCount writer_two_queued = of_nat (length (m_mQueue writer_two_queued))
      \<and> length (m_mQueue writer_two_queued) < 2 ^ 64
      \<and> m_nQueueSize writer_two_queued = of_nat (map_bytes (m_mQueue writer_two_queued))
      \<and> map_bytes (m_mQueue writer_two_queued) < 2 ^ 64"
    by (simp add: writer_two_queued_def map_bytes_def)
  show ?thesis
    using a e entry_drains_smallest_key [OF a b c d, of "\<lambda>p i. i + 1"]
    by (auto simp: writer_two_queued_def matSize_def)
qed

text \<open>
  Claim C2 fails on the program. \<open>queue\<close> adds the size of the packet to
  \<^verbatim>\<open>m_nQueueSize\<close> and one to \<^verbatim>\<open>m_nQueueCount\<close> also when the index is already in
  the map, where the assignment replaces the packet. After a packet of 2 bytes and then
  one of 3 bytes under index 5, the map holds one packet of 3 bytes, the byte count is
  5 and the packet count is 2; the worker drains the one packet, and its next round
  fails the assertion of \<^verbatim>\<open>entry\<close> that a counted packet is in the map.
\<close>

theorem queue_same_index_twice:
  "(case startAsyncWriting cb 6442450944 100 False 1 (DataWriter_ctor 0) of
      Inr (b, s0) \<Rightarrow>
        (case queue cb [1, 2] 5 s0 of
           Returns (r1, s1) \<Rightarrow>
             (case queue cb [7, 8, 9] 5 s1 of
                Returns (r2, s2) \<Rightarrow>
                  (m_mQueue s2, m_nQueueSize s2, map_bytes (m_mQueue s2), m_nQueueCount s2,
                   (case entry cb s2 of
                      Drained s3 \<Rightarrow>
                        (m_mQueue s3, m_nQueueSize s3, m_nQueueCount s3, entry cb s3))))))
   = ([(5, [7, 8, 9])], 5, 3, 2,
      ([], 2, 1, AssertionFailed ''data writer notified for missing packet''))"
  by (simp add: startAsyncWriting_def DataWriter_ctor_def queue_def matSize_def Let_def
      map_bytes_def entry_def)

section \<open>Properties of the loader facade\<close>

text \<open>
  Claim C9. For an index at or past \<^verbatim>\<open>getTotPackets()\<close>, both redirect callbacks
  return the empty matrix and leave the loader as it was: neither load function and no
  transform is called, since the history of invocations is unchanged.
\<close>

theorem redirect_past_the_end:
  assumes "nIdx \<ge> getTotPackets b"
  shows "getInputPacket_redirect b nIdx s = Inr (emptyMat, s)
    \<and> getGTPacket_redirect b nIdx s = Inr (emptyMat, s)
    \<and> im_data emptyMat = []"
  using assms by (simp add: getInputPacket_redirect_def getGTPacket_redirect_def emptyMat_def)

theorem redirect_past_the_end_witness:
  "(10 :: size_t) \<ge> getTotPackets batch_of_ten
   \<and> getInputPacket_redirect batch_of_ten 10 loader_idle = Inr (emptyMat, loader_idle)
   \<and> getGTPacket_redirect batch_of_ten 10 loader_idle = Inr (emptyMat, loader_idle)
   \<and> (\<exists>s'. getInputPacket_redirect batch_of_ten 9 loader_idle
             = Inr (\<lparr>im_width = 1, im_height = 1, im_channels = 1, im_data = [7]\<rparr>, s')
          \<and> invoked s' = [InputPacket_impl 9])"
proof -
  have h: "(10 :: size_t) \<ge> getTotPackets batch_of_ten"
    by (simp add: batch_of_ten_def)
  have "\<exists>s'. getInputPacket_redirect batch_of_ten 9 loader_idle
             = Inr (\<lparr>im_width = 1, im_height = 1, im_channels = 1, im_data = [7]\<rparr>, s')
          \<and> invoked s' = [InputPacket_impl 9]"
    by (simp add: getInputPacket_redirect_def batch_of_ten_def loader_idle_def Let_def
        mat_empty_def mat_size_def area_def)
  with h redirect_past_the_end [OF h, of loader_idle] show ?thesis
    by simp
qed

section \<open>Starting with a size of zero\<close>

lemma join_workers_frame:
  "join_workers cb s = Inr s' \<Longrightarrow>
   m_bIsActive_w s' = m_bIsActive_w s \<and> m_vhWorkers s' = m_vhWorkers s"
proof (induction cb s rule: join_workers.induct)
  case (1 cb s)
  note js = join_workers.simps [of cb s]
  show ?case
  proof (cases "m_nQueueCount s = 0")
    case True
    with "1.prems" show ?thesis by (simp add: js)
  next
    case False
    show ?thesis
    proof (cases "entry cb s")
      case (Drained s1)
      then have fr: "m_bIsActive_w s1 = m_bIsActive_w s \<and> m_vhWorkers s1 = m_vhWorkers s"
        by (auto simp: entry_def Let_def split: if_splits list.splits prod.splits)
      from False Drained "1.prems" have "join_workers cb s1 = Inr s'"
        by (simp add: js)
      with "1.IH" [OF False Drained] fr show ?thesis by simp
    next
      case Exits
      with False "1.prems" show ?thesis by (simp add: js)
    next
      case Sleeps
      with False "1.prems" show ?thesis by (simp add: js)
    next
      case (AssertionFailed msg)
      with False "1.prems" show ?thesis by (simp add: js)
    qed
  qed
qed

lemma stopAsyncWriting_frame:
  "stopAsyncWriting cb s = Inr s' \<Longrightarrow>
   \<not> m_bIsActive_w s' \<and> length (m_vhWorkers s') = length (m_vhWorkers s)"
  by (auto simp: stopAsyncWriting_def Let_def split: if_splits sum.splits dest!: join_workers_frame)

text \<open>
  Where the stop of a running engine returns, a start with a size of zero does what its
  name says. \<^verbatim>\<open>startAsyncPrecaching(0)\<close> returns false and leaves the precacher as
  \<^verbatim>\<open>stopAsyncPrecaching\<close> leaves it: not active, with no worker that was not there
  before, and with no call of the loader (no prefill ran). \<open>getPacket\<close> then answers
  in the caller: from the memoised packet, or by one direct call of the loader.
  \<^verbatim>\<open>startAsyncWriting(0,...)\<close> on a writer that is not active returns false and changes
  nothing; whenever it returns, it returns false, the writer is not active, the vector of
  workers has not grown, and \<open>queue\<close> calls the archiver callback in the caller.
\<close>

theorem start_with_size_zero:
  "startAsyncPrecaching cb mx 0 ticks s = (False, stopAsyncPrecaching s)
   \<and> \<not> m_bIsActive (stopAsyncPrecaching s)
   \<and> (m_hWorker (stopAsyncPrecaching s) \<longrightarrow> m_hWorker s)
   \<and> loaded (stopAsyncPrecaching s) = loaded s
   \<and> getPacket cb i (stopAsyncPrecaching s)
       = (if i = m_nLastReqIdx s then Some (m_oLastReqPacket s, stopAsyncPrecaching s)
          else Some (MatData (cb i),
                     (stopAsyncPrecaching s)\<lparr>m_oLastReqPacket := MatData (cb i),
                                              m_nLastReqIdx := i,
                                              loaded := loaded s @ [i]\<rparr>))
   \<and> (\<not> m_bIsActive_w w \<longrightarrow> startAsyncWriting snk mx 0 d n w = Inr (False, w))
   \<and> (\<forall>w'. startAsyncWriting snk mx 0 d n w = Inr (r, w') \<longrightarrow>
         r = False \<and> \<not> m_bIsActive_w w'
         \<and> length (m_vhWorkers w') = length (m_vhWorkers w)
         \<and> queue snk p i w' = Returns (snk p i, w'\<lparr>sunk := sunk w' @ [(p, i)]\<rparr>))"
  by (auto simp: startAsyncPrecaching_def stopAsyncPrecaching_def getPacket_def Let_def
      startAsyncWriting_def queue_def split: if_splits sum.splits dest!: stopAsyncWriting_frame)

theorem start_with_size_zero_witness:
  "startAsyncWriting (\<lambda>p i. i) 6442450944 0 True 4 (DataWriter_ctor 0) = Inr (False, DataWriter_ctor 0)
   \<and> startAsyncWriting (\<lambda>p i. i) 6442450944 0 False 4 writer_two_queued
       = Inr (False, writer_two_queued\<lparr>m_bIsActive_w := False, m_mQueue := [], m_nQueueSize := 0,
            m_nQueueCount := 0, m_vhWorkers := [False], sunk := [([10], 1), ([11], 7)]\<rparr>)
   \<and> startAsyncPrecaching one_byte_packets 6442450944 0 5 DataPrecacher_ctor = (False, DataPrecacher_ctor)
   \<and> getPacket one_byte_packets 3 DataPrecacher_ctor
       = Some (MatData [1], DataPrecacher_ctor\<lparr>m_oLastReqPacket := MatData [1], m_nLastReqIdx := 3,
                                               loaded := [3]\<rparr>)"
  using start_with_size_zero [of one_byte_packets 6442450944 5 DataPrecacher_ctor 3
      "DataWriter_ctor 0" "\<lambda>p i. i" True 4 False]
    start_with_size_zero [of one_byte_packets 6442450944 5 DataPrecacher_ctor 3
      writer_two_queued "\<lambda>p i. i" False 4 False]
  by (simp add: startAsyncWriting_def stopAsyncWriting_def DataWriter_ctor_def writer_two_queued_def
      join_workers.simps entry_def matSize_def Let_def startAsyncPrecaching_def DataPrecacher_ctor_def
      stopAsyncPrecaching_def getPacket_def one_byte_packets_def)

text \<open>
  Claim C10 fails on the program, for the writer. \<^verbatim>\<open>startAsyncWriting\<close> appends its
  threads to \<^verbatim>\<open>m_vhWorkers\<close> and \<^verbatim>\<open>stopAsyncWriting\<close> joins every element of that
  vector, but nothing ever takes a thread out of it (a restart clears \<^verbatim>\<open>m_mQueue\<close> and
  the two counters only). A writer that was started, stopped and started again with one
  worker therefore holds the thread joined by the first stop in front of the running one.
  \<^verbatim>\<open>startAsyncWriting(0,...)\<close> finds the writer active and calls \<^verbatim>\<open>stopAsyncWriting\<close>,
  whose first \<^verbatim>\<open>join\<close> is on a thread that is not joinable: it throws
  \<^verbatim>\<open>std::system_error\<close>, and the call returns nothing, where the claim has it return
  false. A plain \<^verbatim>\<open>stopAsyncWriting\<close> of that writer throws in the same way.
\<close>

theorem start_zero_after_restart:
  "(case startAsyncWriting snk 6442450944 100 False 1 (DataWriter_ctor 0) of
      Inr (b0, w0) \<Rightarrow>
        (case stopAsyncWriting snk w0 of
           Inr w1 \<Rightarrow>
             (case startAsyncWriting snk 6442450944 100 False 1 w1 of
                Inr (b2, w2) \<Rightarrow>
                  (m_vhWorkers w1, b2, m_bIsActive_w w2, m_vhWorkers w2,
                   startAsyncWriting snk 6442450944 0 False 1 w2,
                   stopAsyncWriting snk w2))))
   = ([False], True, True, [False, True], Inl ''std::system_error'', Inl ''std::system_error'')"
  by (simp add: startAsyncWriting_def stopAsyncWriting_def DataWriter_ctor_def
      join_workers.simps Let_def)

section \<open>The fill pass of the precacher\<close>

text \<open>
  Claim C3 fails on the program. The fill loop runs while
  \<^verbatim>\<open>nUsedBufferSize<nBufferSize && nFillCount<10\<close>, and \<^verbatim>\<open>nFillCount\<close> stays zero:
  the pass is bounded by the buffer only. With a buffer of 16 bytes and packets of one
  byte, a request far ahead empties the cache; the next timeout finds no byte in use
  and enqueues 15 packets in one pass.
\<close>

theorem fill_pass_not_bounded_by_ten:
  "(case startAsyncPrecaching one_byte_packets 6442450944 16 100 DataPrecacher_ctor of
      (b, s0) \<Rightarrow>
        (case getPacket one_byte_packets 100 s0 of
           Some (m, s1) \<Rightarrow>
             (length (qoCache s1), usedBufferSize s1 < nBufferSize s1 div 4,
              (case entry_timeout one_byte_packets s1 of
                 Some s2 \<Rightarrow> (length (qoCache s2), map c_idx (qoCache s2))))))
   = (0, True, (15, [101, 102, 103, 104, 105, 106, 107, 108, 109, 110, 111, 112, 113, 114, 115]))"
  by code_simp

section \<open>The invariant of the cache\<close>

text \<open>
  The worker copies packets into a ring over \<^verbatim>\<open>vcBuffer\<close>. The lemmas of this section
  show that no copy overwrites a region that a header still refers to, that every
  header in the cache shows the packet of its index, and that the loops of the worker
  end. They hold in every state of \<open>reach\<close>.
\<close>

subsection \<open>copyTo\<close>

lemma copyTo_length: "off + length p \<le> length buf \<Longrightarrow> length (copyTo p off buf) = length buf"
  by (simp add: copyTo_def)

lemma copyTo_read: "off + length p \<le> length buf \<Longrightarrow> take (length p) (drop off (copyTo p off buf)) = p"
  by (simp add: copyTo_def)

lemma copyTo_other:
  assumes "off + length p \<le> length buf" and "o' + l \<le> off \<or> off + length p \<le> o'"
  shows "take l (drop o' (copyTo p off buf)) = take l (drop o' buf)"
proof (rule nth_equalityI)
  show "length (take l (drop o' (copyTo p off buf))) = length (take l (drop o' buf))"
    using assms(1) by (simp add: copyTo_length)
next
  fix i assume "i < length (take l (drop o' (copyTo p off buf)))"
  then have i: "i < l" "o' + i < length buf"
    using assms(1) by (auto simp: copyTo_length)
  have "copyTo p off buf ! (o' + i) = buf ! (o' + i)"
    using assms i by (auto simp: copyTo_def nth_append)
  with i assms(1) show "take l (drop o' (copyTo p off buf)) ! i = take l (drop o' buf) ! i"
    by (simp add: copyTo_length)
qed

subsection \<open>chain\<close>

lemma chain_le: "chain vs lo hi \<Longrightarrow> lo \<le> hi"
  by (induction vs arbitrary: lo) fastforce+

lemma chain_mem: "chain vs lo hi \<Longrightarrow> v \<in> set vs \<Longrightarrow> lo \<le> fst v \<and> fst v + snd v \<le> hi \<and> 0 < snd v"
proof (induction vs arbitrary: lo)
  case Nil
  then show ?case by simp
next
  case (Cons a vs)
  from Cons.prems(1) have c: "chain vs (fst a + snd a) hi" and a: "lo \<le> fst a" "0 < snd a"
    by simp_all
  show ?case
  proof (cases "v = a")
    case True
    with a chain_le [OF c] show ?thesis by simp
  next
    case False
    with Cons.prems(2) have "v \<in> set vs" by simp
    from Cons.IH [OF c this] a show ?thesis by simp
  qed
qed

lemma chain_hi_mono: "chain vs lo hi \<Longrightarrow> hi \<le> hi' \<Longrightarrow> chain vs lo hi'"
  by (induction vs arbitrary: lo) auto

lemma chain_snoc: "chain vs lo hi \<Longrightarrow> 0 < l \<Longrightarrow> chain (vs @ [(hi, l)]) lo (hi + l)"
  by (induction vs arbitrary: lo) auto

lemma chain_suffix: "chain (pre @ v # vs) lo hi \<Longrightarrow> chain (v # vs) (fst v) hi"
  by (induction pre arbitrary: lo) auto

lemma chain_length: "chain vs lo hi \<Longrightarrow> length vs \<le> hi - lo"
proof (induction vs arbitrary: lo)
  case Nil
  then show ?case by simp
next
  case (Cons a vs)
  from Cons.prems have c: "chain vs (fst a + snd a) hi" and a: "lo \<le> fst a" "0 < snd a"
    by simp_all
  from Cons.IH [OF c] chain_le [OF c] a show ?case by simp
qed

subsection \<open>layout\<close>

lemma layout_flushed: "layout sentinel sentinel C []"
  by (simp add: layout_def)

lemma layout_first:
  "0 < l \<Longrightarrow> l < C \<Longrightarrow> layout 0 l C [(0, l)]"
  by (simp add: layout_def sentinel_def)

lemma layout_wrappedI:
  "F \<noteq> sentinel \<Longrightarrow> X < F \<Longrightarrow> chain A F C \<Longrightarrow> chain B 0 X \<Longrightarrow> layout F X C (A @ B)"
  by (auto simp: layout_def)

lemma layout_mem:
  assumes "layout F X C vs" and "v \<in> set vs"
  shows "fst v + snd v \<le> C \<and> 0 < snd v"
proof -
  from assms have ns: "F \<noteq> sentinel"
    by (auto simp: layout_def)
  show ?thesis
  proof (cases "F \<le> X")
    case True
    with assms ns have "chain vs F X" "X \<le> C"
      by (simp_all add: layout_def)
    with chain_mem [OF this(1) assms(2)] show ?thesis by simp
  next
    case False
    with assms ns obtain A B where ab: "vs = A @ B" "chain A F C" "chain B 0 X"
      by (auto simp: layout_def)
    from chain_le [OF ab(2)] False have "X \<le> C" by simp
    with ab assms(2) chain_mem [OF ab(2), of v] chain_mem [OF ab(3), of v] show ?thesis
      by auto
  qed
qed

lemma layout_push_next:
  assumes "layout F X C vs" and "F \<noteq> sentinel" and "F \<le> X" and "X + l < C" and "0 < l"
  shows "layout F (X + l) C (vs @ [(X, l)])" and "\<forall>v \<in> set vs. fst v + snd v \<le> X"
proof -
  from assms have c: "chain vs F X" by (simp add: layout_def)
  from chain_snoc [OF c assms(5)] assms show "layout F (X + l) C (vs @ [(X, l)])"
    by (simp add: layout_def)
  from c show "\<forall>v \<in> set vs. fst v + snd v \<le> X"
    by (auto dest: chain_mem)
qed

lemma layout_push_wrap:
  assumes "layout F X C vs" and "F \<noteq> sentinel" and "F \<le> X" and "l < F" and "0 < l"
  shows "layout F l C (vs @ [(0, l)])" and "\<forall>v \<in> set vs. l \<le> fst v"
proof -
  from assms have c: "chain vs F X" and xc: "X \<le> C" by (simp_all add: layout_def)
  have "chain vs F C" by (rule chain_hi_mono [OF c xc])
  moreover have "chain [(0, l)] 0 l" using assms(5) by simp
  ultimately show "layout F l C (vs @ [(0, l)])"
    using assms(2,4) by (intro layout_wrappedI)
  from c assms(4) show "\<forall>v \<in> set vs. l \<le> fst v"
    by (auto dest!: chain_mem)
qed

lemma layout_push_wrapped:
  assumes "layout F X C vs" and "X < F" and "F \<noteq> sentinel" and "X + l < F" and "0 < l"
  shows "layout F (X + l) C (vs @ [(X, l)])"
    and "\<forall>v \<in> set vs. fst v + snd v \<le> X \<or> X + l \<le> fst v"
    and "X + l \<le> C"
proof -
  from assms obtain A B where ab: "vs = A @ B" "chain A F C" "chain B 0 X"
    by (auto simp: layout_def)
  have "chain (B @ [(X, l)]) 0 (X + l)" by (rule chain_snoc [OF ab(3) assms(5)])
  with ab assms have "layout F (X + l) C (A @ (B @ [(X, l)]))"
    by (intro layout_wrappedI) simp_all
  with ab show "layout F (X + l) C (vs @ [(X, l)])"
    by simp
  from ab assms(4) show "\<forall>v \<in> set vs. fst v + snd v \<le> X \<or> X + l \<le> fst v"
    by (auto dest!: chain_mem)
  from chain_le [OF ab(2)] assms(4) show "X + l \<le> C" by simp
qed

lemma layout_pop:
  assumes "layout F X C (pre @ v # vs)" and "C \<le> sentinel"
  shows "layout (fst v) X C (v # vs)"
proof -
  from assms(1) have ns: "F \<noteq> sentinel"
    by (auto simp: layout_def)
  from layout_mem [OF assms(1), of v] assms(2) have vns: "fst v \<noteq> sentinel" "fst v < C"
    by auto
  show ?thesis
  proof (cases "F \<le> X")
    case True
    with assms ns have c: "chain (pre @ v # vs) F X" and xc: "X \<le> C"
      by (simp_all add: layout_def)
    have c': "chain (v # vs) (fst v) X" by (rule chain_suffix [OF c])
    then have "fst v \<le> X" by (rule chain_le)
    with c' xc vns show ?thesis by (simp add: layout_def)
  next
    case False
    with assms ns obtain A B where ab: "pre @ v # vs = A @ B" "chain A F C" "chain B 0 X"
      by (auto simp: layout_def)
    from chain_le [OF ab(2)] False have xc: "X \<le> C" "X < F" by simp_all
    from ab(1) consider (inA) A' where "A = pre @ v # A'" "vs = A' @ B"
      | (inB) B' where "B = B' @ v # vs"
      by (auto simp: append_eq_append_conv2 append_eq_Cons_conv Cons_eq_append_conv)
    then show ?thesis
    proof cases
      case inA
      with ab(2) have c: "chain (v # A') (fst v) C" by (auto dest: chain_suffix)
      from ab(2) inA have "F \<le> fst v" by (auto dest!: chain_mem)
      with xc have "\<not> fst v \<le> X" by simp
      with c ab(3) vns have "layout (fst v) X C ((v # A') @ B)"
        by (intro layout_wrappedI) simp_all
      with inA show ?thesis by simp
    next
      case inB
      with ab(3) have c: "chain (v # vs) (fst v) X" by (auto dest: chain_suffix)
      then have "fst v \<le> X" by (rule chain_le)
      with c xc vns show ?thesis by (simp add: layout_def)
    qed
  qed
qed

lemma layout_length:
  assumes "layout F X C vs"
  shows "length vs \<le> C"
proof (cases "vs = []")
  case True
  then show ?thesis by simp
next
  case False
  with assms have ns: "F \<noteq> sentinel" by (auto simp: layout_def)
  show ?thesis
  proof (cases "F \<le> X")
    case True
    with assms ns have "chain vs F X" "X \<le> C" by (simp_all add: layout_def)
    with chain_length [OF this(1)] show ?thesis by simp
  next
    case False
    with assms ns obtain A B where ab: "vs = A @ B" "chain A F C" "chain B 0 X"
      by (auto simp: layout_def)
    from chain_length [OF ab(2)] chain_length [OF ab(3)] chain_le [OF ab(2)] False ab(1)
    show ?thesis by simp
  qed
qed

subsection \<open>Words\<close>

lemma unat_minus_1: "unat (- 1 :: size_t) = sentinel"
  by (simp add: sentinel_def unsigned_minus_1_eq_mask mask_eq_exp_minus_1)

lemma unat_sentinel: "unat (x :: size_t) = sentinel \<longleftrightarrow> x = - 1"
  by (simp only: unat_minus_1 [symmetric] word_unat_eq_iff [symmetric])

lemma unat_le_sentinel: "unat (x :: size_t) \<le> sentinel"
  using unsigned_less [of x, where 'a = nat] by (simp add: sentinel_def)

lemma worker_invD:
  assumes "worker_inv cb s"
  shows "length (vcBuffer s) = unat (nBufferSize s)"
    and "\<forall>i. length (cb i) + unat (nBufferSize s) < 2 ^ 64"
    and "map c_idx (qoCache s) = index_run (nNextExpectedReqIdx s) (length (qoCache s))"
    and "nNextPrecacheIdx s = nNextExpectedReqIdx s + of_nat (length (qoCache s))"
    and "\<forall>c \<in> set (qoCache s). matBytes s (MatView (c_off c) (c_len c)) = Some (cb (c_idx c))"
    and "layout (unat (nFirstBufferIdx s)) (unat (nNextBufferIdx s)) (unat (nBufferSize s)) (regions s)"
    and "nNextExpectedReqIdx s \<noteq> 0 \<longrightarrow>
            matBytes s (m_oReqPacket s) = Some (cb (nNextExpectedReqIdx s - 1))"
  using assms unfolding worker_inv_def by blast+

lemma unat_matSize: "length p < 2 ^ 64 \<Longrightarrow> unat (matSize p) = length p"
  by (simp add: matSize_def unat_of_nat)

lemma unat_plus_small:
  "unat (a :: size_t) + unat b < 2 ^ 64 \<Longrightarrow> unat (a + b) = unat a + unat b"
  using unat_add_lem [of a b] by simp

lemma index_run_Suc: "index_run a (Suc n) = index_run a n @ [a + of_nat n]"
  by (simp add: index_run_def)

lemma index_run_Cons: "index_run a (Suc n) = a # index_run (a + 1) n"
proof -
  have "[0..<Suc n] = 0 # map Suc [0..<n]"
    by (simp add: upt_conv_Cons map_Suc_upt del: upt_Suc)
  then show ?thesis
    by (simp add: index_run_def comp_def add.assoc del: upt_Suc)
qed

subsection \<open>Headers and the buffer\<close>

lemma matBytes_buffer: "vcBuffer s' = vcBuffer s \<Longrightarrow> matBytes s' m = matBytes s m"
  by (cases m) simp_all

lemma matBytes_copyTo_other:
  assumes "vcBuffer s' = copyTo p off (vcBuffer s)" and "off + length p \<le> length (vcBuffer s)"
    and "\<forall>v \<in> set (held m). fst v + snd v \<le> off \<or> off + length p \<le> fst v"
  shows "matBytes s' m = matBytes s m"
proof (cases m)
  case (MatData bs)
  then show ?thesis by simp
next
  case (MatView a l)
  with assms(3) have "unat a + unat l \<le> off \<or> off + length p \<le> unat a" by simp
  from copyTo_other [OF assms(2) this] assms(1,2) MatView show ?thesis
    by (simp add: copyTo_length)
qed

lemma matBytes_copyTo_new:
  assumes "vcBuffer s' = copyTo p off (vcBuffer s)" and "off + length p \<le> length (vcBuffer s)"
    and "unat a = off" and "unat l = length p"
  shows "matBytes s' (MatView a l) = Some p"
  using assms by (simp add: copyTo_length copyTo_read)

subsection \<open>Copying a packet into the buffer\<close>

lemma push_inv:
  assumes inv: "worker_inv cb s"
    and p: "p = cb (nNextPrecacheIdx s)" and nz: "0 < length p"
    and fits: "off + length p \<le> unat (nBufferSize s)"
    and offw: "unat offw = off"
    and lay: "layout (unat F') (unat X') (unat (nBufferSize s)) (regions s @ [(off, length p)])"
    and disj: "\<forall>v \<in> set (regions s). fst v + snd v \<le> off \<or> off + length p \<le> fst v"
    and buf: "vcBuffer s' = copyTo p off (vcBuffer s)"
    and q: "qoCache s' = qoCache s @ [Cached (nNextPrecacheIdx s) offw (matSize p)]"
    and flds: "nNextBufferIdx s' = X'" "nFirstBufferIdx s' = F'"
      "nNextPrecacheIdx s' = nNextPrecacheIdx s + 1" "nBufferSize s' = nBufferSize s"
      "nNextExpectedReqIdx s' = nNextExpectedReqIdx s" "m_oReqPacket s' = m_oReqPacket s"
  shows "worker_inv cb s'" and "matBytes s' (m_oReqPacket s) = matBytes s (m_oReqPacket s)"
proof -
  note wi = worker_invD [OF inv]
  note len = wi(1) and small = wi(2) and idx = wi(3) and pre = wi(4) and content = wi(5)
    and last = wi(7)
  from fits len have fits': "off + length p \<le> length (vcBuffer s)" by simp
  from small p have "length p < 2 ^ 64" by (metis add_lessD1)
  then have sz: "unat (matSize p) = length p" by (rule unat_matSize)
  have keep: "matBytes s' m = matBytes s m" if "set (held m) \<subseteq> set (regions s)" for m
    using that disj by (intro matBytes_copyTo_other [OF buf fits']) auto
  show kept: "matBytes s' (m_oReqPacket s) = matBytes s (m_oReqPacket s)"
    by (rule keep) (simp add: regions_def)
  have new: "matBytes s' (MatView offw (matSize p)) = Some p"
    by (rule matBytes_copyTo_new [OF buf fits' offw sz])
  have content': "\<forall>c \<in> set (qoCache s'). matBytes s' (MatView (c_off c) (c_len c)) = Some (cb (c_idx c))"
  proof
    fix c assume "c \<in> set (qoCache s')"
    with q consider "c \<in> set (qoCache s)" | "c = Cached (nNextPrecacheIdx s) offw (matSize p)"
      by auto
    then show "matBytes s' (MatView (c_off c) (c_len c)) = Some (cb (c_idx c))"
    proof cases
      case 1
      then have "set (held (MatView (c_off c) (c_len c))) \<subseteq> set (regions s)"
        by (auto simp: regions_def region_def)
      from keep [OF this] content 1 show ?thesis by simp
    next
      case 2
      with new p show ?thesis by simp
    qed
  qed
  have reg: "regions s' = regions s @ [(off, length p)]"
    by (simp add: regions_def q flds region_def offw sz)
  from idx pre have idx': "map c_idx (qoCache s') = index_run (nNextExpectedReqIdx s') (length (qoCache s'))"
    by (simp add: q flds index_run_Suc)
  from pre have pre': "nNextPrecacheIdx s' = nNextExpectedReqIdx s' + of_nat (length (qoCache s'))"
    by (simp add: q flds)
  from last kept have last': "nNextExpectedReqIdx s' \<noteq> 0 \<longrightarrow>
            matBytes s' (m_oReqPacket s') = Some (cb (nNextExpectedReqIdx s' - 1))"
    by (simp add: flds)
  from len fits' buf have len': "length (vcBuffer s') = unat (nBufferSize s')"
    by (simp add: copyTo_length flds)
  from lay reg have "layout (unat (nFirstBufferIdx s')) (unat (nNextBufferIdx s')) (unat (nBufferSize s')) (regions s')"
    by (simp add: flds)
  with len' small idx' pre' content' last' show "worker_inv cb s'"
    unfolding worker_inv_def flds by blast
qed

lemma fill_frame_refl: "fill_frame s s"
  by (simp add: fill_frame_def)

lemma fill_frame_trans: "fill_frame s s' \<Longrightarrow> fill_frame s' s'' \<Longrightarrow> fill_frame s s''"
  by (simp add: fill_frame_def)

lemma fill_frame_loaded: "fill_frame s (s\<lparr>loaded := l\<rparr>)"
  by (simp add: fill_frame_def matBytes_buffer [of "s\<lparr>loaded := l\<rparr>" s])

lemma matBytes_loaded [simp]: "matBytes (s\<lparr>loaded := l\<rparr>) m = matBytes s m"
  by (cases m) simp_all

lemma worker_inv_loaded: "worker_inv cb s \<Longrightarrow> worker_inv cb (s\<lparr>loaded := l\<rparr>)"
  unfolding worker_inv_def regions_def by (simp del: matBytes.simps)

lemma inv_unat_next:
  assumes "worker_inv cb s" and "nFirstBufferIdx s \<noteq> - 1"
  shows "unat (nNextBufferIdx s) \<le> unat (nBufferSize s)"
proof -
  note lay = worker_invD(6) [OF assms(1)]
  from assms(2) have ns: "unat (nFirstBufferIdx s) \<noteq> sentinel" by (simp add: unat_sentinel)
  show ?thesis
  proof (cases "unat (nFirstBufferIdx s) \<le> unat (nNextBufferIdx s)")
    case True
    with lay ns show ?thesis by (simp add: layout_def)
  next
    case False
    with lay ns obtain A B where "chain A (unat (nFirstBufferIdx s)) (unat (nBufferSize s))"
      by (auto simp: layout_def)
    from chain_le [OF this] False show ?thesis by simp
  qed
qed

text \<open>The three places where the worker copies a packet into the buffer.\<close>

lemma push_next_inv:
  assumes inv: "worker_inv cb s" and ns: "nFirstBufferIdx s \<noteq> - 1"
    and le: "nFirstBufferIdx s \<le> nNextBufferIdx s"
    and p: "p = cb (nNextPrecacheIdx s)" and nz: "matSize p \<noteq> 0"
    and room: "nNextBufferIdx s + matSize p < nBufferSize s"
    and buf: "vcBuffer s' = copyTo p (unat (nNextBufferIdx s)) (vcBuffer s)"
    and q: "qoCache s' = qoCache s @ [Cached (nNextPrecacheIdx s) (nNextBufferIdx s) (matSize p)]"
    and flds: "nNextBufferIdx s' = nNextBufferIdx s + matSize p" "nFirstBufferIdx s' = nFirstBufferIdx s"
      "nNextPrecacheIdx s' = nNextPrecacheIdx s + 1" "nBufferSize s' = nBufferSize s"
      "nNextExpectedReqIdx s' = nNextExpectedReqIdx s" "m_oReqPacket s' = m_oReqPacket s"
  shows "worker_inv cb s'" and "matBytes s' (m_oReqPacket s) = matBytes s (m_oReqPacket s)"
    and "unat (nNextBufferIdx s') = unat (nNextBufferIdx s) + length p" and "0 < length p"
proof -
  note wi = worker_invD [OF inv]
  from wi(2) p have small: "length p + unat (nBufferSize s) < 2 ^ 64" by simp
  then have sz: "unat (matSize p) = length p" by (intro unat_matSize) simp
  with nz show pos: "0 < length p" by (cases p) (simp_all add: matSize_def)
  from inv_unat_next [OF inv ns] small sz
  have sum: "unat (nNextBufferIdx s + matSize p) = unat (nNextBufferIdx s) + length p"
    by (simp add: unat_plus_small)
  then show "unat (nNextBufferIdx s') = unat (nNextBufferIdx s) + length p"
    by (simp add: flds)
  from room sum have room': "unat (nNextBufferIdx s) + length p < unat (nBufferSize s)"
    by (simp add: word_less_nat_alt)
  from ns have ns': "unat (nFirstBufferIdx s) \<noteq> sentinel" by (simp add: unat_sentinel)
  from le have le': "unat (nFirstBufferIdx s) \<le> unat (nNextBufferIdx s)" by (simp add: word_le_nat_alt)
  note lp = layout_push_next [OF wi(6) ns' le' room' pos]
  have lay: "layout (unat (nFirstBufferIdx s)) (unat (nNextBufferIdx s + matSize p)) (unat (nBufferSize s))
      (regions s @ [(unat (nNextBufferIdx s), length p)])"
    using lp(1) by (simp add: sum)
  have disj: "\<forall>v \<in> set (regions s). fst v + snd v \<le> unat (nNextBufferIdx s)
      \<or> unat (nNextBufferIdx s) + length p \<le> fst v"
    using lp(2) by blast
  from room' have fits: "unat (nNextBufferIdx s) + length p \<le> unat (nBufferSize s)" by simp
  show "worker_inv cb s'" "matBytes s' (m_oReqPacket s) = matBytes s (m_oReqPacket s)"
    by (rule push_inv [OF inv p pos fits refl lay disj buf q flds])+
qed

lemma push_wrapped_inv:
  assumes inv: "worker_inv cb s"
    and gt: "\<not> nFirstBufferIdx s \<le> nNextBufferIdx s"
    and p: "p = cb (nNextPrecacheIdx s)" and nz: "matSize p \<noteq> 0"
    and room: "nNextBufferIdx s + matSize p < nFirstBufferIdx s"
    and buf: "vcBuffer s' = copyTo p (unat (nNextBufferIdx s)) (vcBuffer s)"
    and q: "qoCache s' = qoCache s @ [Cached (nNextPrecacheIdx s) (nNextBufferIdx s) (matSize p)]"
    and flds: "nNextBufferIdx s' = nNextBufferIdx s + matSize p" "nFirstBufferIdx s' = nFirstBufferIdx s"
      "nNextPrecacheIdx s' = nNextPrecacheIdx s + 1" "nBufferSize s' = nBufferSize s"
      "nNextExpectedReqIdx s' = nNextExpectedReqIdx s" "m_oReqPacket s' = m_oReqPacket s"
  shows "worker_inv cb s'" and "matBytes s' (m_oReqPacket s) = matBytes s (m_oReqPacket s)"
    and "unat (nNextBufferIdx s') = unat (nNextBufferIdx s) + length p" and "0 < length p"
proof -
  note wi = worker_invD [OF inv]
  from wi(2) p have small: "length p + unat (nBufferSize s) < 2 ^ 64" by simp
  then have sz: "unat (matSize p) = length p" by (intro unat_matSize) simp
  with nz show pos: "0 < length p" by (cases p) (simp_all add: matSize_def)
  from gt have lt': "unat (nNextBufferIdx s) < unat (nFirstBufferIdx s)"
    by (simp add: word_le_nat_alt)
  have ns: "nFirstBufferIdx s \<noteq> - 1"
  proof
    assume "nFirstBufferIdx s = - 1"
    with wi(6) have "unat (nNextBufferIdx s) = sentinel"
      by (simp add: layout_def unat_minus_1)
    with lt' unat_le_sentinel [of "nFirstBufferIdx s"] show False by simp
  qed
  then have ns': "unat (nFirstBufferIdx s) \<noteq> sentinel" by (simp add: unat_sentinel)
  from inv_unat_next [OF inv ns] small sz
  have sum: "unat (nNextBufferIdx s + matSize p) = unat (nNextBufferIdx s) + length p"
    by (simp add: unat_plus_small)
  then show "unat (nNextBufferIdx s') = unat (nNextBufferIdx s) + length p"
    by (simp add: flds)
  from room sum have room': "unat (nNextBufferIdx s) + length p < unat (nFirstBufferIdx s)"
    by (simp add: word_less_nat_alt)
  note lp = layout_push_wrapped [OF wi(6) lt' ns' room' pos]
  have lay: "layout (unat (nFirstBufferIdx s)) (unat (nNextBufferIdx s + matSize p)) (unat (nBufferSize s))
      (regions s @ [(unat (nNextBufferIdx s), length p)])"
    using lp(1) by (simp add: sum)
  show "worker_inv cb s'" "matBytes s' (m_oReqPacket s) = matBytes s (m_oReqPacket s)"
    by (rule push_inv [OF inv p pos lp(3) refl lay lp(2) buf q flds])+
qed

lemma push_front_inv:
  assumes inv: "worker_inv cb s"
    and le: "nFirstBufferIdx s \<le> nNextBufferIdx s"
    and p: "p = cb (nNextPrecacheIdx s)" and nz: "matSize p \<noteq> 0"
    and room: "\<not> ((nFirstBufferIdx s \<noteq> - 1 \<and> matSize p \<ge> nFirstBufferIdx s) \<or> matSize p \<ge> nBufferSize s)"
    and buf: "vcBuffer s' = copyTo p 0 (vcBuffer s)"
    and q: "qoCache s' = qoCache s @ [Cached (nNextPrecacheIdx s) 0 (matSize p)]"
    and flds: "nNextBufferIdx s' = matSize p"
      "nFirstBufferIdx s' = (if nFirstBufferIdx s = - 1 then 0 else nFirstBufferIdx s)"
      "nNextPrecacheIdx s' = nNextPrecacheIdx s + 1" "nBufferSize s' = nBufferSize s"
      "nNextExpectedReqIdx s' = nNextExpectedReqIdx s" "m_oReqPacket s' = m_oReqPacket s"
  shows "worker_inv cb s'" and "matBytes s' (m_oReqPacket s) = matBytes s (m_oReqPacket s)"
    and "0 < length p" and "length p < unat (nBufferSize s)"
    and "nFirstBufferIdx s \<noteq> - 1 \<longrightarrow> length p < unat (nFirstBufferIdx s)"
proof -
  note wi = worker_invD [OF inv]
  from wi(2) p have small: "length p + unat (nBufferSize s) < 2 ^ 64" by simp
  then have sz: "unat (matSize p) = length p" by (intro unat_matSize) simp
  with nz show pos: "0 < length p" by (cases p) (simp_all add: matSize_def)
  from room sz show ltC: "length p < unat (nBufferSize s)"
    by (simp add: word_le_nat_alt)
  from room sz show ltF: "nFirstBufferIdx s \<noteq> - 1 \<longrightarrow> length p < unat (nFirstBufferIdx s)"
    by (auto simp: word_le_nat_alt)
  from ltC have fits: "0 + length p \<le> unat (nBufferSize s)" by simp
  have lay: "layout (unat (if nFirstBufferIdx s = - 1 then 0 else nFirstBufferIdx s)) (unat (matSize p))
      (unat (nBufferSize s)) (regions s @ [(0, length p)])
    \<and> (\<forall>v \<in> set (regions s). fst v + snd v \<le> 0 \<or> 0 + length p \<le> fst v)"
  proof (cases "nFirstBufferIdx s = - 1")
    case True
    with wi(6) have "regions s = []" by (simp add: layout_def unat_minus_1)
    with True layout_first [OF pos ltC] show ?thesis by (simp add: sz)
  next
    case False
    then have ns': "unat (nFirstBufferIdx s) \<noteq> sentinel" by (simp add: unat_sentinel)
    from le have le': "unat (nFirstBufferIdx s) \<le> unat (nNextBufferIdx s)" by (simp add: word_le_nat_alt)
    from False ltF have "length p < unat (nFirstBufferIdx s)" by simp
    from layout_push_wrap [OF wi(6) ns' le' this pos] False show ?thesis by (simp add: sz)
  qed
  have z: "unat (0 :: size_t) = 0" by simp
  show "worker_inv cb s'" "matBytes s' (m_oReqPacket s) = matBytes s (m_oReqPacket s)"
    by (rule push_inv [OF inv p pos fits z conjunct1 [OF lay] conjunct2 [OF lay] buf q flds])+
qed

subsection \<open>The loops of the worker\<close>

lemma prefill_inv:
  "worker_inv cb s \<Longrightarrow> nFirstBufferIdx s = 0 \<Longrightarrow>
   worker_inv cb (prefill cb ticks s) \<and> fill_frame s (prefill cb ticks s)"
proof (induction ticks arbitrary: s)
  case 0
  then show ?case by (simp add: fill_frame_refl)
next
  case (Suc ticks)
  define p where "p = cb (nNextPrecacheIdx s)"
  define s2 where "s2 = s\<lparr>loaded := loaded s @ [nNextPrecacheIdx s],
     vcBuffer := copyTo p (unat (nNextBufferIdx s)) (vcBuffer s),
     qoCache := qoCache s @ [Cached (nNextPrecacheIdx s) (nNextBufferIdx s) (matSize p)],
     nNextBufferIdx := nNextBufferIdx s + matSize p,
     nNextPrecacheIdx := nNextPrecacheIdx s + 1\<rparr>"
  show ?case
  proof (cases "matSize p > 0 \<and> nNextBufferIdx s + matSize p < nBufferSize s")
    case True
    then have step: "prefill cb (Suc ticks) s = prefill cb ticks s2"
      by (simp add: p_def s2_def Let_def)
    from True have nz: "matSize p \<noteq> 0" by auto
    from True have room: "nNextBufferIdx s + matSize p < nBufferSize s" by simp
    from Suc.prems(2) have ns: "nFirstBufferIdx s \<noteq> - 1" and le: "nFirstBufferIdx s \<le> nNextBufferIdx s"
      by simp_all
    have inv2: "worker_inv cb s2" and kept: "matBytes s2 (m_oReqPacket s) = matBytes s (m_oReqPacket s)"
      by (rule push_next_inv [OF Suc.prems(1) ns le p_def nz room, where s' = s2]; simp add: s2_def)+
    from kept have fr: "fill_frame s s2"
      by (simp add: fill_frame_def s2_def)
    from Suc.prems(2) have "nFirstBufferIdx s2 = 0" by (simp add: s2_def)
    from Suc.IH [OF inv2 this] fr step show ?thesis
      by (auto intro: fill_frame_trans)
  next
    case False
    then have "prefill cb (Suc ticks) s = s\<lparr>loaded := loaded s @ [nNextPrecacheIdx s]\<rparr>"
      by (auto simp: p_def Let_def)
    with Suc.prems(1) show ?thesis
      by (simp add: worker_inv_loaded fill_frame_loaded)
  qed
qed

lemma fill_loop_inv:
  "worker_inv cb s \<Longrightarrow>
   \<exists>s'. fill_loop cb used cnt s = Some s' \<and> worker_inv cb s' \<and> fill_frame s s'"
proof (induction s arbitrary: used
    rule: measure_induct_rule [where f = "\<lambda>s.
      if unat (nFirstBufferIdx s) = sentinel then 2 * unat (nBufferSize s) + 1
      else if unat (nFirstBufferIdx s) \<le> unat (nNextBufferIdx s)
        then 2 * unat (nBufferSize s) - unat (nNextBufferIdx s)
        else unat (nFirstBufferIdx s) - unat (nNextBufferIdx s)"])
  case (less s)
  note inv = less.prems
  define p where "p = cb (nNextPrecacheIdx s)"
  define s1 where "s1 = s\<lparr>loaded := loaded s @ [nNextPrecacheIdx s]\<rparr>"
  have stop1: "worker_inv cb s1 \<and> fill_frame s s1"
    using inv by (simp add: s1_def worker_inv_loaded fill_frame_loaded)
  note eq = fill_loop.simps [of cb used cnt s, folded p_def, unfolded Let_def, folded s1_def]
  show ?case
  proof (cases "used < nBufferSize s \<and> cnt < 10")
    case False
    with inv show ?thesis by (auto simp: eq fill_frame_refl)
  next
    case loop: True
    show ?thesis
    proof (cases "matSize p = 0")
      case True
      with loop stop1 show ?thesis by (simp add: eq)
    next
      case nz: False
      show ?thesis
      proof (cases "nFirstBufferIdx s \<le> nNextBufferIdx s")
        case le: True
        then have le': "unat (nFirstBufferIdx s) \<le> unat (nNextBufferIdx s)"
          by (simp add: word_le_nat_alt)
        show ?thesis
        proof (cases "nNextBufferIdx s = - 1 \<or> nNextBufferIdx s + matSize p \<ge> nBufferSize s")
          case wrap: True
          show ?thesis
          proof (cases "(nFirstBufferIdx s \<noteq> - 1 \<and> matSize p \<ge> nFirstBufferIdx s)
                        \<or> matSize p \<ge> nBufferSize s")
            case True
            with loop nz le wrap stop1 show ?thesis by (simp add: eq)
          next
            case room: False
            define s2 where "s2 = s1\<lparr>vcBuffer := copyTo p 0 (vcBuffer s),
               qoCache := qoCache s @ [Cached (nNextPrecacheIdx s) 0 (matSize p)],
               nNextBufferIdx := matSize p,
               nFirstBufferIdx := (if nFirstBufferIdx s = - 1 then 0 else nFirstBufferIdx s),
               nNextPrecacheIdx := nNextPrecacheIdx s + 1\<rparr>"
            from loop nz le wrap room
            have step: "fill_loop cb used cnt s = fill_loop cb (used + matSize p) cnt s2"
              by (cases "nFirstBufferIdx s = - 1") (simp_all add: eq s2_def)
            have inv2: "worker_inv cb s2"
              and kept: "matBytes s2 (m_oReqPacket s) = matBytes s (m_oReqPacket s)"
              and pos: "0 < length p" and ltC: "length p < unat (nBufferSize s)"
              and ltF: "nFirstBufferIdx s \<noteq> - 1 \<longrightarrow> length p < unat (nFirstBufferIdx s)"
              by (rule push_front_inv [OF inv le p_def nz room, where s' = s2]; simp add: s2_def s1_def)+
            from kept have fr: "fill_frame s s2"
              by (simp add: fill_frame_def s2_def s1_def)
            from worker_invD(2) [OF inv] have "length p + unat (nBufferSize s) < 2 ^ 64"
              by (simp add: p_def)
            then have sz: "unat (matSize p) = length p" by (intro unat_matSize) simp
            have dec: "(if unat (nFirstBufferIdx s2) = sentinel then 2 * unat (nBufferSize s2) + 1
                else if unat (nFirstBufferIdx s2) \<le> unat (nNextBufferIdx s2)
                  then 2 * unat (nBufferSize s2) - unat (nNextBufferIdx s2)
                  else unat (nFirstBufferIdx s2) - unat (nNextBufferIdx s2))
              < (if unat (nFirstBufferIdx s) = sentinel then 2 * unat (nBufferSize s) + 1
                else if unat (nFirstBufferIdx s) \<le> unat (nNextBufferIdx s)
                  then 2 * unat (nBufferSize s) - unat (nNextBufferIdx s)
                  else unat (nFirstBufferIdx s) - unat (nNextBufferIdx s))"
            proof (cases "nFirstBufferIdx s = - 1")
              case True
              then show ?thesis
                using pos ltC by (simp add: s2_def s1_def sz unat_minus_1 sentinel_def)
            next
              case False
              with ltF have lt: "length p < unat (nFirstBufferIdx s)" by simp
              from False have "unat (nFirstBufferIdx s) \<noteq> sentinel" by (simp add: unat_sentinel)
              moreover from inv_unat_next [OF inv False] le'
              have "unat (nFirstBufferIdx s) \<le> unat (nBufferSize s)"
                "unat (nNextBufferIdx s) \<le> unat (nBufferSize s)" by simp_all
              ultimately show ?thesis
                using False lt le' pos
                by (simp add: s2_def s1_def sz del: length_greater_0_conv)
            qed
            from less.IH [OF dec inv2, of "used + matSize p"] step fr show ?thesis
              by (auto intro: fill_frame_trans)
          qed
        next
          case nowrap: False
          define s2 where "s2 = s1\<lparr>vcBuffer := copyTo p (unat (nNextBufferIdx s)) (vcBuffer s),
             qoCache := qoCache s @ [Cached (nNextPrecacheIdx s) (nNextBufferIdx s) (matSize p)],
             nNextBufferIdx := nNextBufferIdx s + matSize p,
             nNextPrecacheIdx := nNextPrecacheIdx s + 1\<rparr>"
          from loop nz le nowrap
          have step: "fill_loop cb used cnt s = fill_loop cb (used + matSize p) cnt s2"
            by (simp add: eq s2_def)
          from nowrap have room: "nNextBufferIdx s + matSize p < nBufferSize s" by auto
          have ns: "nFirstBufferIdx s \<noteq> - 1"
          proof
            assume "nFirstBufferIdx s = - 1"
            with worker_invD(6) [OF inv] have "unat (nNextBufferIdx s) = sentinel"
              by (simp add: layout_def unat_minus_1)
            with nowrap show False by (simp add: unat_sentinel)
          qed
          have inv2: "worker_inv cb s2"
            and kept: "matBytes s2 (m_oReqPacket s) = matBytes s (m_oReqPacket s)"
            and nxt: "unat (nNextBufferIdx s2) = unat (nNextBufferIdx s) + length p"
            and pos: "0 < length p"
            by (rule push_next_inv [OF inv ns le p_def nz room, where s' = s2]; simp add: s2_def s1_def)+
          from kept have fr: "fill_frame s s2"
            by (simp add: fill_frame_def s2_def s1_def)
          from ns have ns': "unat (nFirstBufferIdx s) \<noteq> sentinel" by (simp add: unat_sentinel)
          from inv_unat_next [OF inv2] ns have "unat (nNextBufferIdx s2) \<le> unat (nBufferSize s)"
            by (simp add: s2_def s1_def)
          with nxt pos le' ns'
          have dec: "(if unat (nFirstBufferIdx s2) = sentinel then 2 * unat (nBufferSize s2) + 1
                else if unat (nFirstBufferIdx s2) \<le> unat (nNextBufferIdx s2)
                  then 2 * unat (nBufferSize s2) - unat (nNextBufferIdx s2)
                  else unat (nFirstBufferIdx s2) - unat (nNextBufferIdx s2))
              < (if unat (nFirstBufferIdx s) = sentinel then 2 * unat (nBufferSize s) + 1
                else if unat (nFirstBufferIdx s) \<le> unat (nNextBufferIdx s)
                  then 2 * unat (nBufferSize s) - unat (nNextBufferIdx s)
                  else unat (nFirstBufferIdx s) - unat (nNextBufferIdx s))"
            by (simp add: s2_def s1_def del: length_greater_0_conv)
          from less.IH [OF dec inv2, of "used + matSize p"] step fr show ?thesis
            by (auto intro: fill_frame_trans)
        qed
      next
        case gt: False
        then have gt': "unat (nNextBufferIdx s) < unat (nFirstBufferIdx s)"
          by (simp add: word_le_nat_alt)
        show ?thesis
        proof (cases "nNextBufferIdx s + matSize p < nFirstBufferIdx s")
          case room: True
          define s2 where "s2 = s1\<lparr>vcBuffer := copyTo p (unat (nNextBufferIdx s)) (vcBuffer s),
             qoCache := qoCache s @ [Cached (nNextPrecacheIdx s) (nNextBufferIdx s) (matSize p)],
             nNextBufferIdx := nNextBufferIdx s + matSize p,
             nNextPrecacheIdx := nNextPrecacheIdx s + 1\<rparr>"
          from loop nz gt room
          have step: "fill_loop cb used cnt s = fill_loop cb (used + matSize p) cnt s2"
            by (simp add: eq s2_def)
          have inv2: "worker_inv cb s2"
            and kept: "matBytes s2 (m_oReqPacket s) = matBytes s (m_oReqPacket s)"
            and nxt: "unat (nNextBufferIdx s2) = unat (nNextBufferIdx s) + length p"
            and pos: "0 < length p"
            by (rule push_wrapped_inv [OF inv gt p_def nz room, where s' = s2]; simp add: s2_def s1_def)+
          from kept have fr: "fill_frame s s2"
            by (simp add: fill_frame_def s2_def s1_def)
          from gt' unat_le_sentinel [of "nFirstBufferIdx s"] worker_invD(6) [OF inv]
          have ns': "unat (nFirstBufferIdx s) \<noteq> sentinel"
            by (auto simp: layout_def)
          from room nxt have "unat (nNextBufferIdx s2) < unat (nFirstBufferIdx s)"
            by (simp add: word_less_nat_alt s2_def s1_def)
          with nxt pos gt' ns'
          have dec: "(if unat (nFirstBufferIdx s2) = sentinel then 2 * unat (nBufferSize s2) + 1
                else if unat (nFirstBufferIdx s2) \<le> unat (nNextBufferIdx s2)
                  then 2 * unat (nBufferSize s2) - unat (nNextBufferIdx s2)
                  else unat (nFirstBufferIdx s2) - unat (nNextBufferIdx s2))
              < (if unat (nFirstBufferIdx s) = sentinel then 2 * unat (nBufferSize s) + 1
                else if unat (nFirstBufferIdx s) \<le> unat (nNextBufferIdx s)
                  then 2 * unat (nBufferSize s) - unat (nNextBufferIdx s)
                  else unat (nFirstBufferIdx s) - unat (nNextBufferIdx s))"
            by (simp add: s2_def s1_def del: length_greater_0_conv)
          from less.IH [OF dec inv2, of "used + matSize p"] step fr show ?thesis
            by (auto intro: fill_frame_trans)
        next
          case False
          with loop nz gt stop1 show ?thesis by (simp add: eq)
        qed
      qed
    qed
  qed
qed

lemma loop_condition: "(0 < (r :: size_t) - e + 1) \<longleftrightarrow> e \<noteq> r + 1"
proof -
  have "r - e + 1 = (r + 1) - e" by simp
  then show ?thesis
    by (simp only: word_greater_zero_iff right_minus_eq) auto
qed

lemma unat_succ_below: "unat (r :: size_t) < unat (b :: size_t) \<Longrightarrow> unat (r + 1) = unat r + 1"
proof -
  assume "unat r < unat b"
  with unat_le_sentinel [of b] have "unat r + unat (1 :: size_t) < 2 ^ 64"
    by (simp add: sentinel_def)
  then show ?thesis by (simp add: unat_plus_small)
qed

lemma pop_loop_inv:
  "worker_inv cb s \<Longrightarrow> unat (nNextExpectedReqIdx s) \<le> unat (m_nReqIdx s) + 1
   \<Longrightarrow> unat (m_nReqIdx s) < unat (nNextPrecacheIdx s)
   \<Longrightarrow> \<exists>s'. pop_loop s = Some s' \<and> worker_inv cb s'
        \<and> nNextExpectedReqIdx s' = m_nReqIdx s + 1
        \<and> m_bIsActive s' = m_bIsActive s \<and> m_hWorker s' = m_hWorker s
        \<and> m_nReqIdx s' = m_nReqIdx s \<and> m_nLastReqIdx s' = m_nLastReqIdx s
        \<and> m_oLastReqPacket s' = m_oLastReqPacket s \<and> nBufferSize s' = nBufferSize s
        \<and> vcBuffer s' = vcBuffer s \<and> loaded s' = loaded s"
proof (induction s rule: pop_loop.induct)
  case (1 s)
  note inv = "1.prems"(1)
  note wi = worker_invD [OF inv]
  note eq = pop_loop.simps [of s]
  from "1.prems"(3) have r1: "unat (m_nReqIdx s + 1) = unat (m_nReqIdx s) + 1"
    by (rule unat_succ_below)
  show ?case
  proof (cases "nNextExpectedReqIdx s = m_nReqIdx s + 1")
    case True
    then have "\<not> 0 < m_nReqIdx s - nNextExpectedReqIdx s + 1"
      by (simp add: loop_condition)
    with inv True show ?thesis by (simp add: eq)
  next
    case False
    then have cond: "0 < m_nReqIdx s - nNextExpectedReqIdx s + 1"
      by (simp add: loop_condition)
    from False "1.prems"(2) r1 have lt: "unat (nNextExpectedReqIdx s) < unat (m_nReqIdx s) + 1"
      by (metis le_neq_implies_less word_unat_eq_iff)
    with "1.prems"(3) have "nNextExpectedReqIdx s \<noteq> nNextPrecacheIdx s"
      by auto
    with wi(4) have "qoCache s \<noteq> []" by auto
    then obtain c rest where q: "qoCache s = c # rest" by (cases "qoCache s") auto
    define s2 where "s2 = s\<lparr>m_oReqPacket := MatView (c_off c) (c_len c),
                         nFirstBufferIdx := c_off c,
                         qoCache := rest,
                         nNextExpectedReqIdx := nNextExpectedReqIdx s + 1\<rparr>"
    from cond q have step: "pop_loop s = pop_loop s2"
      by (simp add: eq s2_def)
    from wi(3) q have cidx: "c_idx c = nNextExpectedReqIdx s"
      and ridx: "map c_idx rest = index_run (nNextExpectedReqIdx s + 1) (length rest)"
      by (simp_all add: index_run_Cons)
    from wi(5) q have cbytes: "matBytes s (MatView (c_off c) (c_len c)) = Some (cb (c_idx c))"
      by simp
    have reg: "regions s = held (m_oReqPacket s) @ region c # map region rest"
      by (simp add: regions_def q)
    have reg2: "regions s2 = region c # map region rest"
      by (simp add: regions_def s2_def region_def)
    from wi(6) have "layout (fst (region c)) (unat (nNextBufferIdx s)) (unat (nBufferSize s))
        (region c # map region rest)"
      unfolding reg by (rule layout_pop) (rule unat_le_sentinel)
    then have lay2: "layout (unat (nFirstBufferIdx s2)) (unat (nNextBufferIdx s2)) (unat (nBufferSize s2))
        (regions s2)"
      by (simp add: reg2) (simp add: s2_def region_def)
    have b2: "matBytes s2 m = matBytes s m" for m
      by (rule matBytes_buffer) (simp add: s2_def)
    have inv2: "worker_inv cb s2"
      unfolding worker_inv_def
    proof (intro conjI)
      show "length (vcBuffer s2) = unat (nBufferSize s2)"
        using wi(1) by (simp add: s2_def)
      show "\<forall>i. length (cb i) + unat (nBufferSize s2) < 2 ^ 64"
        using wi(2) by (simp add: s2_def)
      show "map c_idx (qoCache s2) = index_run (nNextExpectedReqIdx s2) (length (qoCache s2))"
        using ridx by (simp add: s2_def)
      show "nNextPrecacheIdx s2 = nNextExpectedReqIdx s2 + of_nat (length (qoCache s2))"
        using wi(4) q by (simp add: s2_def)
      show "\<forall>c \<in> set (qoCache s2). matBytes s2 (MatView (c_off c) (c_len c)) = Some (cb (c_idx c))"
        using wi(5) q unfolding b2 by (simp add: s2_def)
      show "layout (unat (nFirstBufferIdx s2)) (unat (nNextBufferIdx s2)) (unat (nBufferSize s2)) (regions s2)"
        by (rule lay2)
      show "nNextExpectedReqIdx s2 \<noteq> 0 \<longrightarrow>
            matBytes s2 (m_oReqPacket s2) = Some (cb (nNextExpectedReqIdx s2 - 1))"
        using cbytes cidx unfolding b2 by (simp add: s2_def)
    qed
    from lt "1.prems"(3) have e1: "unat (nNextExpectedReqIdx s + 1) = unat (nNextExpectedReqIdx s) + 1"
      by (intro unat_succ_below [of _ "nNextPrecacheIdx s"]) simp
    with lt have p2: "unat (nNextExpectedReqIdx s2) \<le> unat (m_nReqIdx s2) + 1"
      by (simp add: s2_def)
    from "1.prems"(3) have p3: "unat (m_nReqIdx s2) < unat (nNextPrecacheIdx s2)"
      by (simp add: s2_def)
    from "1.IH" [OF cond q, folded s2_def, OF inv2 p2 p3] step show ?thesis
      by (auto simp: s2_def)
  qed
qed

lemma answer_manually_inv:
  assumes "length (vcBuffer s) = unat (nBufferSize s)"
    and "\<forall>i. length (cb i) + unat (nBufferSize s) < 2 ^ 64"
    and "qoCache s = []"
  shows "worker_inv cb (answer_manually cb s)"
  using assms
  by (simp add: worker_inv_def answer_manually_def index_run_def regions_def unat_minus_1
      layout_flushed)

lemma entry_request_inv:
  assumes inv: "worker_inv cb s"
  shows "\<exists>s'. entry_request cb s = Some s' \<and> worker_inv cb s'
        \<and> (m_nReqIdx s \<noteq> - 1 \<longrightarrow> matBytes s' (m_oReqPacket s') = Some (cb (m_nReqIdx s)))
        \<and> m_bIsActive s' = m_bIsActive s \<and> m_hWorker s' = m_hWorker s
        \<and> m_nReqIdx s' = m_nReqIdx s \<and> m_nLastReqIdx s' = m_nLastReqIdx s
        \<and> m_oLastReqPacket s' = m_oLastReqPacket s \<and> nBufferSize s' = nBufferSize s"
proof -
  note wi = worker_invD [OF inv]
  show ?thesis
  proof (cases "m_nReqIdx s = nNextExpectedReqIdx s - 1")
    case True
    then have "m_nReqIdx s \<noteq> - 1 \<longrightarrow> nNextExpectedReqIdx s \<noteq> 0" by auto
    with True wi(7) inv show ?thesis by (auto simp: entry_request_def)
  next
    case ne: False
    show ?thesis
    proof (cases "qoCache s \<noteq> [] \<and> m_nReqIdx s < nNextPrecacheIdx s
                  \<and> m_nReqIdx s \<ge> nNextExpectedReqIdx s")
      case True
      then have lt: "unat (m_nReqIdx s) < unat (nNextPrecacheIdx s)"
        and le: "unat (nNextExpectedReqIdx s) \<le> unat (m_nReqIdx s) + 1"
        by (simp_all add: word_less_nat_alt word_le_nat_alt)
      from pop_loop_inv [OF inv le lt] obtain s' where s': "pop_loop s = Some s'"
        "worker_inv cb s'" "nNextExpectedReqIdx s' = m_nReqIdx s + 1"
        "m_bIsActive s' = m_bIsActive s" "m_hWorker s' = m_hWorker s"
        "m_nReqIdx s' = m_nReqIdx s" "m_nLastReqIdx s' = m_nLastReqIdx s"
        "m_oLastReqPacket s' = m_oLastReqPacket s" "nBufferSize s' = nBufferSize s"
        by blast
      from unat_succ_below [OF lt] have "m_nReqIdx s + 1 \<noteq> 0"
        by (metis add_is_0 unat_0 zero_neq_one)
      with worker_invD(7) [OF s'(2)] s'(3)
      have "matBytes s' (m_oReqPacket s') = Some (cb (m_nReqIdx s))" by simp
      with ne True s' show ?thesis by (simp add: entry_request_def)
    next
      case False
      define s0 where "s0 = (if qoCache s \<noteq> [] then s\<lparr>qoCache := []\<rparr> else s)"
      from ne False have eq: "entry_request cb s = Some (answer_manually cb s0)"
        by (auto simp: entry_request_def s0_def)
      have "worker_inv cb (answer_manually cb s0)"
        using wi(1,2) by (intro answer_manually_inv) (simp_all add: s0_def)
      then show ?thesis
        unfolding eq by (simp add: answer_manually_def s0_def)
    qed
  qed
qed

lemma entry_timeout_inv:
  assumes "worker_inv cb s"
  shows "\<exists>s'. entry_timeout cb s = Some s' \<and> worker_inv cb s' \<and> fill_frame s s'"
proof (cases "usedBufferSize s < nBufferSize s div 4")
  case True
  with fill_loop_inv [OF assms, of "usedBufferSize s" 0] show ?thesis
    by (simp add: entry_timeout_def Let_def)
next
  case False
  with assms show ?thesis
    by (simp add: entry_timeout_def Let_def fill_frame_refl)
qed

subsection \<open>The invariant holds in every reachable state\<close>

lemma worker_inv_cong:
  assumes "vcBuffer s' = vcBuffer s" "nBufferSize s' = nBufferSize s" "qoCache s' = qoCache s"
    "nNextExpectedReqIdx s' = nNextExpectedReqIdx s" "nNextPrecacheIdx s' = nNextPrecacheIdx s"
    "nFirstBufferIdx s' = nFirstBufferIdx s" "nNextBufferIdx s' = nNextBufferIdx s"
    "m_oReqPacket s' = m_oReqPacket s"
  shows "worker_inv cb s' = worker_inv cb s"
  unfolding worker_inv_def regions_def assms matBytes_buffer [of s' s, OF assms(1)] ..

lemma matBytes_data: "held m = [] \<Longrightarrow> matBytes s' m = matBytes s m"
  by (cases m) simp_all

lemma ctor_inv: "precacher_inv cb DataPrecacher_ctor"
  by (simp add: precacher_inv_def DataPrecacher_ctor_def)

lemma start_inv:
  assumes inv: "precacher_inv cb s" and off: "\<not> m_bIsActive s" and fit: "packets_fit cb mx"
  shows "precacher_inv cb (snd (startAsyncPrecaching cb mx n ticks s))"
proof (cases "n > 0")
  case False
  with inv off show ?thesis by (simp add: startAsyncPrecaching_def)
next
  case True
  define C where "C = (if n > mx then mx else n)"
  define s2 where "s2 = s\<lparr>m_bIsActive := True, m_nReqIdx := - 1, m_hWorker := True,
      nBufferSize := C, vcBuffer := replicate (unat C) 0, qoCache := [],
      nNextExpectedReqIdx := 0, nNextPrecacheIdx := 0,
      nFirstBufferIdx := 0, nNextBufferIdx := 0\<rparr>"
  from True off have eq: "snd (startAsyncPrecaching cb mx n ticks s) = prefill cb ticks s2"
    by (simp add: startAsyncPrecaching_def Let_def s2_def C_def)
  have "C \<le> mx" by (auto simp: C_def)
  then have "unat C \<le> unat mx" by (simp add: word_le_nat_alt)
  with fit have small: "\<forall>i. length (cb i) + unat C < 2 ^ 64"
    unfolding packets_fit_def by (metis add_le_cancel_left le_less_trans)
  from inv off have h: "held (m_oReqPacket s) = []" and hl: "held (m_oLastReqPacket s) = []"
    by (auto simp: precacher_inv_def)
  have "layout 0 0 (unat C) []"
    by (simp add: layout_def sentinel_def)
  with small h have inv2: "worker_inv cb s2"
    by (simp add: worker_inv_def s2_def index_run_def regions_def)
  from prefill_inv [OF inv2, of ticks]
  have inv3: "worker_inv cb (prefill cb ticks s2)" and fr: "fill_frame s2 (prefill cb ticks s2)"
    by (simp_all add: s2_def)
  from fr have m: "m_oLastReqPacket (prefill cb ticks s2) = m_oLastReqPacket s"
    "m_nLastReqIdx (prefill cb ticks s2) = m_nLastReqIdx s" "m_bIsActive (prefill cb ticks s2)"
    by (simp_all add: fill_frame_def s2_def)
  from inv have "m_nLastReqIdx s \<noteq> - 1 \<longrightarrow> matBytes s (m_oLastReqPacket s) = Some (cb (m_nLastReqIdx s))"
    by (simp add: precacher_inv_def)
  with matBytes_data [OF hl, of "prefill cb ticks s2" s] inv3 hl m show ?thesis
    unfolding eq precacher_inv_def by simp
qed

lemma get_inv:
  assumes inv: "precacher_inv cb s"
  shows "\<exists>m s'. getPacket cb i s = Some (m, s') \<and> precacher_inv cb s'
      \<and> (i \<noteq> - 1 \<longrightarrow> matBytes s' m = Some (cb i))
      \<and> m_nLastReqIdx s' = i \<and> m_oLastReqPacket s' = m \<and> m_bIsActive s' = m_bIsActive s"
proof (cases "i = m_nLastReqIdx s")
  case True
  with inv show ?thesis by (auto simp: getPacket_def precacher_inv_def)
next
  case ne: False
  show ?thesis
  proof (cases "m_bIsActive s")
    case False
    define s' where "s' = s\<lparr>m_oLastReqPacket := MatData (cb i), m_nLastReqIdx := i,
        loaded := loaded s @ [i]\<rparr>"
    from ne False have eq: "getPacket cb i s = Some (MatData (cb i), s')"
      by (simp add: getPacket_def s'_def)
    from inv False have "precacher_inv cb s'"
      by (simp add: precacher_inv_def s'_def)
    with eq False show ?thesis by (simp add: s'_def)
  next
    case True
    define s0 where "s0 = s\<lparr>m_nReqIdx := i\<rparr>"
    from inv True have "worker_inv cb s" by (simp add: precacher_inv_def)
    moreover have "worker_inv cb s0 = worker_inv cb s"
      by (rule worker_inv_cong) (simp_all add: s0_def)
    ultimately have "worker_inv cb s0" by simp
    from entry_request_inv [OF this] obtain s1 where s1: "entry_request cb s0 = Some s1"
      "worker_inv cb s1" "i \<noteq> - 1 \<longrightarrow> matBytes s1 (m_oReqPacket s1) = Some (cb i)"
      "m_bIsActive s1 = m_bIsActive s"
      by (auto simp: s0_def)
    define s' where "s' = s1\<lparr>m_oLastReqPacket := m_oReqPacket s1, m_nLastReqIdx := i\<rparr>"
    from ne True s1(1) have eq: "getPacket cb i s = Some (m_oReqPacket s1, s')"
      by (simp add: getPacket_def s0_def s'_def)
    have b: "matBytes s' m = matBytes s1 m" for m
      by (rule matBytes_buffer) (simp add: s'_def)
    have "worker_inv cb s' = worker_inv cb s1"
      by (rule worker_inv_cong) (simp_all add: s'_def)
    with s1(2) have w: "worker_inv cb s'" by simp
    from s1(3,4) True w have "precacher_inv cb s'"
      unfolding precacher_inv_def b by (simp add: s'_def)
    moreover from s1(3) have "i \<noteq> - 1 \<longrightarrow> matBytes s' (m_oReqPacket s1) = Some (cb i)"
      unfolding b .
    moreover have "m_nLastReqIdx s' = i" "m_oLastReqPacket s' = m_oReqPacket s1"
      "m_bIsActive s' = m_bIsActive s"
      using s1(4) by (simp_all add: s'_def)
    ultimately show ?thesis
      using eq by blast
  qed
qed

lemma timeout_inv:
  assumes inv: "precacher_inv cb s" and on: "m_bIsActive s"
  shows "\<exists>s'. entry_timeout cb s = Some s' \<and> precacher_inv cb s' \<and> fill_frame s s'"
proof -
  from inv on have "worker_inv cb s" by (simp add: precacher_inv_def)
  from entry_timeout_inv [OF this] obtain s' where s': "entry_timeout cb s = Some s'"
    "worker_inv cb s'" "fill_frame s s'"
    by blast
  have "matBytes s' (m_oLastReqPacket s) = matBytes s (m_oLastReqPacket s)"
  proof (cases "held (m_oLastReqPacket s) = []")
    case True
    then show ?thesis by (rule matBytes_data)
  next
    case False
    with inv have "m_oLastReqPacket s = m_oReqPacket s" by (auto simp: precacher_inv_def)
    with s'(3) show ?thesis by (simp add: fill_frame_def)
  qed
  with inv on s'(2,3) have "precacher_inv cb s'"
    by (auto simp: precacher_inv_def fill_frame_def)
  with s' show ?thesis by blast
qed

lemma reach_inv: "reach cb mx s \<Longrightarrow> packets_fit cb mx \<Longrightarrow> precacher_inv cb s"
proof (induction rule: reach.induct)
  case reach_ctor
  show ?case by (rule ctor_inv)
next
  case (reach_start s n ticks)
  then show ?case by (intro start_inv) simp_all
next
  case (reach_get s i m s')
  with get_inv [of cb s i] show ?case by auto
next
  case (reach_timeout s s')
  with timeout_inv [of cb s] show ?case by auto
qed

lemma idles_inv:
  "precacher_inv cb s \<Longrightarrow>
   \<exists>s'. worker_idles cb n s = Some s' \<and> precacher_inv cb s'
      \<and> m_nLastReqIdx s' = m_nLastReqIdx s \<and> m_oLastReqPacket s' = m_oLastReqPacket s
      \<and> matBytes s' (m_oLastReqPacket s) = matBytes s (m_oLastReqPacket s)"
proof (induction n arbitrary: s)
  case 0
  then show ?case by simp
next
  case (Suc n)
  show ?case
  proof (cases "m_bIsActive s")
    case False
    with Suc.prems show ?thesis by simp
  next
    case True
    from timeout_inv [OF Suc.prems True] obtain s1 where s1: "entry_timeout cb s = Some s1"
      "precacher_inv cb s1" "fill_frame s s1"
      by blast
    have kept: "matBytes s1 (m_oLastReqPacket s) = matBytes s (m_oLastReqPacket s)"
    proof (cases "held (m_oLastReqPacket s) = []")
      case True
      then show ?thesis by (rule matBytes_data)
    next
      case False
      with Suc.prems have "m_oLastReqPacket s = m_oReqPacket s" by (auto simp: precacher_inv_def)
      with s1(3) show ?thesis by (simp add: fill_frame_def)
    qed
    from s1(3) have same: "m_nLastReqIdx s1 = m_nLastReqIdx s" "m_oLastReqPacket s1 = m_oLastReqPacket s"
      by (simp_all add: fill_frame_def)
    from Suc.IH [OF s1(2)] obtain s' where s': "worker_idles cb n s1 = Some s'" "precacher_inv cb s'"
      "m_nLastReqIdx s' = m_nLastReqIdx s1" "m_oLastReqPacket s' = m_oLastReqPacket s1"
      "matBytes s' (m_oLastReqPacket s1) = matBytes s1 (m_oLastReqPacket s1)"
      by blast
    with True s1(1) same kept show ?thesis by simp
  qed
qed

section \<open>Properties of the precacher\<close>

lemma reach_get_the:
  assumes "reach cb mx s" and "packets_fit cb mx"
  shows "reach cb mx (snd (the (getPacket cb i s)))"
proof -
  from get_inv [OF reach_inv [OF assms], of i] obtain m s' where "getPacket cb i s = Some (m, s')"
    by blast
  with reach_get [OF assms(1) this] show ?thesis by simp
qed

lemma reach_timeout_the:
  assumes "reach cb mx s" and "packets_fit cb mx" and "m_bIsActive s"
  shows "reach cb mx (the (entry_timeout cb s))"
proof -
  from timeout_inv [OF reach_inv [OF assms(1,2)] assms(3)] obtain s' where "entry_timeout cb s = Some s'"
    by blast
  with reach_timeout [OF assms(1,3) this] show ?thesis by simp
qed

lemma stamped_fit: "packets_fit stamped 6442450944"
  by (simp add: packets_fit_def stamped_def)

lemma reach_cache_wrapped: "reach stamped 6442450944 cache_wrapped"
proof -
  have 1: "reach stamped 6442450944 cache_started"
    unfolding cache_started_def by (rule reach_start [OF reach_ctor]) (simp add: DataPrecacher_ctor_def)
  have 2: "reach stamped 6442450944 cache_ahead"
    unfolding cache_ahead_def by (rule reach_get_the [OF 1 stamped_fit])
  have "m_bIsActive cache_ahead" by code_simp
  then have 3: "reach stamped 6442450944 cache_idle"
    unfolding cache_idle_def by (rule reach_timeout_the [OF 2 stamped_fit])
  show ?thesis
    unfolding cache_wrapped_def by (rule reach_get_the [OF 3 stamped_fit])
qed

text \<open>
  The round trip, as long as the precacher is not stopped. In every state that a
  precacher reaches when it is started or not, and then asked for packets in any order
  (forwards, backwards, repeated) with timeouts of the worker in between, \<open>getPacket\<close>
  returns, and the bytes of the packet returned for an index \<open>i\<close> are those the loader
  gives for \<open>i\<close>; the header keeps showing them while the worker goes on filling the
  cache, until the next call. The loader is a function of the index (it is
  deterministic); \<open>i\<close> is a packet index, so it is not \<^verbatim>\<open>size_t(-1)\<close>.
\<close>

theorem getPacket_round_trip:
  assumes "packets_fit cb mx" and "reach cb mx s" and "i \<noteq> - 1"
  shows "\<exists>m s' s''. getPacket cb i s = Some (m, s') \<and> matBytes s' m = Some (cb i)
      \<and> worker_idles cb n s' = Some s'' \<and> matBytes s'' m = Some (cb i)"
proof -
  from get_inv [OF reach_inv [OF assms(2,1)], of i] assms(3) obtain m s'
    where s': "getPacket cb i s = Some (m, s')" "precacher_inv cb s'"
      "matBytes s' m = Some (cb i)" "m_oLastReqPacket s' = m"
    by blast
  from idles_inv [OF s'(2), of n] s'(3,4) obtain s'' where "worker_idles cb n s' = Some s''"
    "matBytes s'' m = Some (cb i)"
    by auto
  with s'(1,3) show ?thesis by blast
qed

theorem getPacket_round_trip_witness:
  "packets_fit stamped 6442450944 \<and> reach stamped 6442450944 cache_wrapped
   \<and> (\<exists>m s' s''. getPacket stamped 9 cache_wrapped = Some (m, s') \<and> matBytes s' m = Some [9, 9]
          \<and> worker_idles stamped 2 s' = Some s'' \<and> matBytes s'' m = Some [9, 9])
   \<and> (\<exists>m s' s''. getPacket stamped 1 cache_wrapped = Some (m, s') \<and> matBytes s' m = Some [1, 1]
          \<and> worker_idles stamped 2 s' = Some s'' \<and> matBytes s'' m = Some [1, 1])"
proof -
  have a: "(9 :: size_t) \<noteq> - 1" "(1 :: size_t) \<noteq> - 1" by simp_all
  from getPacket_round_trip [OF stamped_fit reach_cache_wrapped a(1), of 2]
    getPacket_round_trip [OF stamped_fit reach_cache_wrapped a(2), of 2]
    stamped_fit reach_cache_wrapped
  show ?thesis by (simp add: stamped_def)
qed

text \<open>
  The same index twice, as long as the precacher is not stopped. Two calls of
  \<open>getPacket\<close> for the same index, with any number of timeouts of the worker between
  them: the second call returns the header that the first returned and leaves the
  precacher as it found it, so it calls no loader (the history \<open>loaded\<close> is part of the
  state); and the bytes that header shows at the second return are those it showed at
  the first. This holds with the worker running or not.
\<close>

theorem getPacket_twice:
  assumes "packets_fit cb mx" and "reach cb mx s"
  shows "\<exists>m s1 s2. getPacket cb i s = Some (m, s1) \<and> worker_idles cb n s1 = Some s2
      \<and> getPacket cb i s2 = Some (m, s2) \<and> matBytes s2 m = matBytes s1 m"
proof -
  from get_inv [OF reach_inv [OF assms(2,1)], of i] obtain m s1
    where s1: "getPacket cb i s = Some (m, s1)" "precacher_inv cb s1"
      "m_nLastReqIdx s1 = i" "m_oLastReqPacket s1 = m"
    by blast
  from idles_inv [OF s1(2), of n] s1(3,4) obtain s2 where s2: "worker_idles cb n s1 = Some s2"
    "m_nLastReqIdx s2 = i" "m_oLastReqPacket s2 = m" "matBytes s2 m = matBytes s1 m"
    by auto
  from s2(2,3) have "getPacket cb i s2 = Some (m, s2)"
    by (simp add: getPacket_def)
  with s1(1) s2(1,4) show ?thesis by blast
qed

theorem getPacket_twice_witness:
  "packets_fit stamped 6442450944 \<and> reach stamped 6442450944 cache_wrapped
   \<and> (\<exists>m s1 s2. getPacket stamped 9 cache_wrapped = Some (m, s1)
         \<and> worker_idles stamped 3 s1 = Some s2
         \<and> getPacket stamped 9 s2 = Some (m, s2) \<and> matBytes s2 m = matBytes s1 m)"
  using getPacket_twice [OF stamped_fit reach_cache_wrapped, of 9 3] stamped_fit reach_cache_wrapped
  by simp

subsection \<open>After a stop\<close>

text \<open>
  Claim C1 fails on the program. The buffer \<^verbatim>\<open>vcBuffer\<close> is a local of the worker, and
  the headers that \<open>getPacket\<close> returns point into it. \<^verbatim>\<open>stopAsyncPrecaching\<close> joins
  the worker, which ends the buffer, but resets neither \<^verbatim>\<open>m_nLastReqIdx\<close> nor
  \<^verbatim>\<open>m_oLastReqPacket\<close> (the constructor sets the index to \<^verbatim>\<open>size_t(-1)\<close>, and
  \<^verbatim>\<open>startAsyncPrecaching\<close> resets \<^verbatim>\<open>m_nReqIdx\<close> only). A request for the index that was
  asked last is then answered by the first line of \<open>getPacket\<close>, from the memoised
  header. With the packets \<open>[i, i]\<close> and a buffer of 16 bytes: \<open>getPacket(2)\<close> on the
  started precacher returns the two bytes at offset 4, which are \<open>[2, 2]\<close>. After
  \<^verbatim>\<open>stopAsyncPrecaching\<close>, \<open>getPacket(2)\<close> returns that same header, with no buffer
  behind it, so with no bytes at all. After a second \<^verbatim>\<open>startAsyncPrecaching(16)\<close>
  instead (which stops the worker first), whose prefill got to packet 0 only,
  \<open>getPacket(2)\<close> returns that same header too; it belongs to the buffer of the worker
  that was joined, and where the buffer of the new worker takes the place of that one,
  as it does in the model, the header shows \<open>[0, 0]\<close>. In neither case the bytes are
  those of packet 2.
\<close>

theorem getPacket_after_stop:
  "(case startAsyncPrecaching stamped 6442450944 16 100 DataPrecacher_ctor of
      (b, s0) \<Rightarrow>
        (case getPacket stamped 2 s0 of
           Some (m1, s1) \<Rightarrow>
             (m1, matBytes s1 m1,
              (case getPacket stamped 2 (stopAsyncPrecaching s1) of
                 Some (m2, s2) \<Rightarrow> (m_bIsActive s2, vcBuffer s2, m2, matBytes s2 m2)),
              (case getPacket stamped 2 (snd (startAsyncPrecaching stamped 6442450944 16 1 s1)) of
                 Some (m3, s3) \<Rightarrow> (m_bIsActive s3, m3, matBytes s3 m3)))))
   = (MatView 4 2, Some [2, 2],
      (False, [], MatView 4 2, None),
      (True, MatView 4 2, Some [0, 0]))"
  by code_simp


subsection \<open>Empty packets\<close>

lemma queued_not_empty:
  assumes "worker_inv cb s" and "c \<in> set (qoCache s)"
  shows "cb (c_idx c) \<noteq> [] \<and> c_len c \<noteq> 0"
proof -
  note wi = worker_invD [OF assms(1)]
  from assms(2) have "region c \<in> set (regions s)" by (simp add: regions_def)
  from layout_mem [OF wi(6) this] have pos: "0 < unat (c_len c)"
    and fits: "unat (c_off c) + unat (c_len c) \<le> unat (nBufferSize s)"
    by (simp_all add: region_def)
  from wi(5) assms(2) have "matBytes s (MatView (c_off c) (c_len c)) = Some (cb (c_idx c))"
    by blast
  with fits wi(1) have "take (unat (c_len c)) (drop (unat (c_off c)) (vcBuffer s)) = cb (c_idx c)"
    by (simp split: if_splits)
  then have "length (cb (c_idx c)) = length (take (unat (c_len c)) (drop (unat (c_off c)) (vcBuffer s)))"
    by simp
  with fits wi(1) have "length (cb (c_idx c)) = unat (c_len c)"
    by simp
  moreover from pos have "c_len c \<noteq> 0" by (simp add: unat_gt_0)
  ultimately show ?thesis using pos by auto
qed

text \<open>
  Claim C8. No entry of the cache holds an empty packet: in every reachable state each
  queued index has a non-empty packet and a non-zero length. The prefill loop, in any
  state \<open>t\<close>, stops at an empty packet and changes nothing but the history of loader
  calls. The timeout branch, when the next packet to fetch is empty, returns with the
  queue unchanged and the worker still running (\<^verbatim>\<open>m_bIsActive\<close> and the thread are as
  before), and the next request is answered.
\<close>

theorem empty_packet_not_enqueued:
  assumes "packets_fit cb mx" and "reach cb mx s"
  shows "(\<forall>c \<in> set (qoCache s). cb (c_idx c) \<noteq> [] \<and> c_len c \<noteq> 0)
    \<and> (cb (nNextPrecacheIdx t) = [] \<longrightarrow>
          prefill cb (Suc ticks) t = t\<lparr>loaded := loaded t @ [nNextPrecacheIdx t]\<rparr>)
    \<and> (cb (nNextPrecacheIdx s) = [] \<and> m_bIsActive s \<longrightarrow>
          (\<exists>s'. entry_timeout cb s = Some s' \<and> qoCache s' = qoCache s
             \<and> m_bIsActive s' \<and> m_hWorker s' = m_hWorker s \<and> reach cb mx s'
             \<and> (\<exists>m s''. getPacket cb i s' = Some (m, s''))))"
proof (intro conjI impI)
  note inv = reach_inv [OF assms(2,1)]
  show "\<forall>c \<in> set (qoCache s). cb (c_idx c) \<noteq> [] \<and> c_len c \<noteq> 0"
  proof (cases "m_bIsActive s")
    case True
    with inv have "worker_inv cb s" by (simp add: precacher_inv_def)
    then show ?thesis by (blast dest: queued_not_empty)
  next
    case False
    with inv show ?thesis by (simp add: precacher_inv_def)
  qed
next
  assume "cb (nNextPrecacheIdx t) = []"
  then show "prefill cb (Suc ticks) t = t\<lparr>loaded := loaded t @ [nNextPrecacheIdx t]\<rparr>"
    by (simp add: matSize_def Let_def)
next
  assume a: "cb (nNextPrecacheIdx s) = [] \<and> m_bIsActive s"
  then have "entry_timeout cb s = Some s
      \<or> entry_timeout cb s = Some (s\<lparr>loaded := loaded s @ [nNextPrecacheIdx s]\<rparr>)"
    by (simp add: entry_timeout_def Let_def fill_loop.simps [of cb _ _ s] matSize_def)
  then obtain s' where s': "entry_timeout cb s = Some s'" "qoCache s' = qoCache s"
    "m_bIsActive s'" "m_hWorker s' = m_hWorker s"
    using a by auto
  from a have r: "reach cb mx s'" by (intro reach_timeout [OF assms(2) _ s'(1)]) simp
  from get_inv [OF reach_inv [OF r assms(1)], of i] obtain m s'' where "getPacket cb i s' = Some (m, s'')"
    by blast
  with s' r show "\<exists>s'. entry_timeout cb s = Some s' \<and> qoCache s' = qoCache s
             \<and> m_bIsActive s' \<and> m_hWorker s' = m_hWorker s \<and> reach cb mx s'
             \<and> (\<exists>m s''. getPacket cb i s' = Some (m, s''))"
    by blast
qed

lemma ten_fit: "packets_fit ten_packets 6442450944"
  by (simp add: packets_fit_def ten_packets_def)

lemma reach_cache_of_ten: "reach ten_packets 6442450944 cache_of_ten"
  unfolding cache_of_ten_def by (rule reach_start [OF reach_ctor]) (simp add: DataPrecacher_ctor_def)

lemma reach_cache_drained: "reach ten_packets 6442450944 cache_drained"
  unfolding cache_drained_def by (rule reach_get_the [OF reach_cache_of_ten ten_fit])

theorem empty_packet_not_enqueued_witness:
  "packets_fit ten_packets 6442450944 \<and> reach ten_packets 6442450944 cache_of_ten
   \<and> reach ten_packets 6442450944 cache_drained
   \<and> map c_idx (qoCache cache_of_ten) = [0, 1, 2, 3, 4, 5, 6, 7, 8, 9]
   \<and> list_all (\<lambda>c. ten_packets (c_idx c) \<noteq> [] \<and> c_len c \<noteq> 0) (qoCache cache_of_ten)
   \<and> ten_packets (nNextPrecacheIdx cache_drained) = [] \<and> m_bIsActive cache_drained
   \<and> (\<exists>s'. entry_timeout ten_packets cache_drained = Some s' \<and> qoCache s' = qoCache cache_drained
          \<and> m_bIsActive s' \<and> (\<exists>m s''. getPacket ten_packets 3 s' = Some (m, s'')))"
proof -
  have q: "map c_idx (qoCache cache_of_ten) = [0, 1, 2, 3, 4, 5, 6, 7, 8, 9]"
    by code_simp
  have e: "ten_packets (nNextPrecacheIdx cache_drained) = [] \<and> m_bIsActive cache_drained"
    by code_simp
  from empty_packet_not_enqueued [OF ten_fit reach_cache_of_ten, of cache_of_ten 0 3]
  have "list_all (\<lambda>c. ten_packets (c_idx c) \<noteq> [] \<and> c_len c \<noteq> 0) (qoCache cache_of_ten)"
    by (simp add: list_all_iff)
  with empty_packet_not_enqueued [OF ten_fit reach_cache_drained, of cache_drained 0 3]
    ten_fit reach_cache_of_ten reach_cache_drained q e
  show ?thesis by auto
qed

subsection \<open>The indices in the cache\<close>

lemma index_run_range:
  assumes "a \<le> b" and "b = a + of_nat n" and "n < 2 ^ 64"
  shows "set (index_run a n) = {i. a \<le> i \<and> i < b}" and "n = unat b - unat a"
proof -
  have un: "unat (of_nat n :: size_t) = n"
    using assms(3) by (simp add: unat_of_nat)
  have sum: "unat a + n < 2 ^ 64"
  proof (rule ccontr)
    assume "\<not> unat a + n < 2 ^ 64"
    then have ge: "2 ^ 64 \<le> unat a + n" by simp
    have "unat b = (unat a + n) mod 2 ^ 64"
      using un by (simp add: assms(2) unat_word_ariths)
    also have "\<dots> = unat a + n - 2 ^ 64"
      using ge assms(3) unsigned_less [of a, where 'a = nat]
      by (simp add: mod_if)
    also have "\<dots> < unat a" using assms(3) ge by simp
    finally show False using assms(1) by (simp add: word_le_nat_alt)
  qed
  then have ub: "unat b = unat a + n"
    using un by (simp add: assms(2) unat_plus_small)
  then show "n = unat b - unat a" by simp
  have el: "unat (a + of_nat k) = unat a + k" if "k < n" for k
  proof -
    from that assms(3) have "unat (of_nat k :: size_t) = k" by (simp add: unat_of_nat)
    with that sum show ?thesis by (simp add: unat_plus_small)
  qed
  show "set (index_run a n) = {i. a \<le> i \<and> i < b}"
  proof (intro set_eqI iffI)
    fix i assume "i \<in> set (index_run a n)"
    then obtain k where k: "k < n" "i = a + of_nat k" by (auto simp: index_run_def)
    with el [OF k(1)] ub show "i \<in> {i. a \<le> i \<and> i < b}"
      by (simp add: word_le_nat_alt word_less_nat_alt)
  next
    fix i assume "i \<in> {i. a \<le> i \<and> i < b}"
    then have i: "unat a \<le> unat i" "unat i < unat a + n"
      using ub by (simp_all add: word_le_nat_alt word_less_nat_alt)
    define k where "k = unat i - unat a"
    from i have k: "k < n" by (simp add: k_def)
    from el [OF k] i have "unat (a + of_nat k) = unat i" by (simp add: k_def)
    then have "i = a + of_nat k" by (simp only: word_unat_eq_iff)
    with k show "i \<in> set (index_run a n)" by (auto simp: index_run_def)
  qed
qed

text \<open>
  Claim C6, amended. In every reachable state the indices in the cache, oldest first,
  are \<^verbatim>\<open>nNextExpectedReqIdx\<close>, \<^verbatim>\<open>nNextExpectedReqIdx+1\<close>, ... counted in \<^verbatim>\<open>size_t\<close>
  arithmetic, and \<^verbatim>\<open>nNextPrecacheIdx\<close> is the index after the last of them. Whenever
  \<^verbatim>\<open>nNextPrecacheIdx\<close> has not wrapped past \<^verbatim>\<open>SIZE_MAX\<close>
  (\<^verbatim>\<open>nNextExpectedReqIdx <= nNextPrecacheIdx\<close>), these are exactly the indices of the
  range from \<^verbatim>\<open>nNextExpectedReqIdx\<close> up to, not including, \<^verbatim>\<open>nNextPrecacheIdx\<close>.
\<close>

theorem cache_holds_index_run:
  assumes "packets_fit cb mx" and "reach cb mx s"
  shows "map c_idx (qoCache s) = index_run (nNextExpectedReqIdx s) (length (qoCache s))
    \<and> nNextPrecacheIdx s = nNextExpectedReqIdx s + of_nat (length (qoCache s))
    \<and> (nNextExpectedReqIdx s \<le> nNextPrecacheIdx s \<longrightarrow>
          set (map c_idx (qoCache s)) = {i. nNextExpectedReqIdx s \<le> i \<and> i < nNextPrecacheIdx s}
          \<and> length (qoCache s) = unat (nNextPrecacheIdx s) - unat (nNextExpectedReqIdx s))"
proof (cases "m_bIsActive s")
  case False
  with reach_inv [OF assms(2,1)] show ?thesis
    by (auto simp: precacher_inv_def index_run_def)
next
  case True
  with reach_inv [OF assms(2,1)] have inv: "worker_inv cb s" by (simp add: precacher_inv_def)
  note wi = worker_invD [OF inv]
  from layout_length [OF wi(6)] have "length (qoCache s) \<le> unat (nBufferSize s)"
    by (simp add: regions_def)
  with unsigned_less [of "nBufferSize s", where 'a = nat] have n: "length (qoCache s) < 2 ^ 64"
    by simp
  show ?thesis
  proof (intro conjI impI)
    show "map c_idx (qoCache s) = index_run (nNextExpectedReqIdx s) (length (qoCache s))"
      by (rule wi(3))
    show "nNextPrecacheIdx s = nNextExpectedReqIdx s + of_nat (length (qoCache s))"
      by (rule wi(4))
  next
    assume le: "nNextExpectedReqIdx s \<le> nNextPrecacheIdx s"
    from index_run_range(1) [OF le wi(4) n]
    show "set (map c_idx (qoCache s)) = {i. nNextExpectedReqIdx s \<le> i \<and> i < nNextPrecacheIdx s}"
      by (simp only: wi(3))
    show "length (qoCache s) = unat (nNextPrecacheIdx s) - unat (nNextExpectedReqIdx s)"
      by (rule index_run_range(2) [OF le wi(4) n])
  qed
qed

theorem cache_holds_index_run_witness:
  "packets_fit stamped 6442450944 \<and> reach stamped 6442450944 cache_wrapped
   \<and> map c_idx (qoCache cache_wrapped) = [9, 10, 11]
   \<and> nNextExpectedReqIdx cache_wrapped = 9 \<and> nNextPrecacheIdx cache_wrapped = 12
   \<and> set (map c_idx (qoCache cache_wrapped)) = {i. 9 \<le> i \<and> i < 12}"
proof -
  have v: "map c_idx (qoCache cache_wrapped) = [9, 10, 11]"
    "nNextExpectedReqIdx cache_wrapped = 9" "nNextPrecacheIdx cache_wrapped = 12"
    by code_simp+
  have "nNextExpectedReqIdx cache_wrapped \<le> nNextPrecacheIdx cache_wrapped"
    by (simp add: v)
  with cache_holds_index_run [OF stamped_fit reach_cache_wrapped]
  have "set (map c_idx (qoCache cache_wrapped))
      = {i. nNextExpectedReqIdx cache_wrapped \<le> i \<and> i < nNextPrecacheIdx cache_wrapped}"
    by blast
  then have "set (map c_idx (qoCache cache_wrapped)) = {i. 9 \<le> i \<and> i < 12}"
    by (simp only: v(2,3))
  with stamped_fit reach_cache_wrapped v show ?thesis by blast
qed

lemma last_fit: "packets_fit last_index_only 6442450944"
  by (simp add: packets_fit_def last_index_only_def)

text \<open>
  Claim C6 as stated fails where the index wraps. A request for index \<open>2 ^ 64 - 2\<close>
  sets both counters to \<open>2 ^ 64 - 1\<close>; the next fill enqueues the packet of index
  \<open>2 ^ 64 - 1\<close> and increments \<^verbatim>\<open>nNextPrecacheIdx\<close>, which becomes 0. The cache then
  holds index \<open>2 ^ 64 - 1\<close>, and no index lies in the range from \<open>2 ^ 64 - 1\<close> up to 0.
\<close>

theorem cache_indices_counterexample:
  "packets_fit last_index_only 6442450944 \<and> reach last_index_only 6442450944 cache_at_end
   \<and> map c_idx (qoCache cache_at_end) = [- 1]
   \<and> nNextExpectedReqIdx cache_at_end = - 1 \<and> nNextPrecacheIdx cache_at_end = 0
   \<and> \<not> (set (map c_idx (qoCache cache_at_end))
          = {i. nNextExpectedReqIdx cache_at_end \<le> i \<and> i < nNextPrecacheIdx cache_at_end})"
proof -
  have 1: "reach last_index_only 6442450944
      (snd (startAsyncPrecaching last_index_only 6442450944 8 100 DataPrecacher_ctor))"
    by (rule reach_start [OF reach_ctor]) (simp add: DataPrecacher_ctor_def)
  note 2 = reach_get_the [OF 1 last_fit, of "- 2"]
  have "m_bIsActive (snd (the (getPacket last_index_only (- 2)
          (snd (startAsyncPrecaching last_index_only 6442450944 8 100 DataPrecacher_ctor)))))"
    by code_simp
  from reach_timeout_the [OF 2 last_fit this] have r: "reach last_index_only 6442450944 cache_at_end"
    by (simp add: cache_at_end_def)
  have v: "map c_idx (qoCache cache_at_end) = [- 1]
     \<and> nNextExpectedReqIdx cache_at_end = - 1 \<and> nNextPrecacheIdx cache_at_end = 0"
    by code_simp
  then have "\<not> (set (map c_idx (qoCache cache_at_end))
          = {i. nNextExpectedReqIdx cache_at_end \<le> i \<and> i < nNextPrecacheIdx cache_at_end})"
    by simp
  with last_fit r v show ?thesis by simp
qed

end
